theory Spec2Isabelle
  imports Complex_Main
begin

section \<open>The Game of Life on a canvas: the program\<close>

text \<open>
  The program keeps the world in the pixels of a canvas. One cell is one pixel, a pixel is
  four consecutive bytes (red, green, blue, alpha) of a row-major byte array, and a cell
  is alive when its red byte equals \<open>alive\<close>. Numbers are modelled as \<open>int\<close>: the
  coordinates handed to \<open>cell\<close> may be negative.
\<close>

subsection \<open>Constants\<close>

definition width :: int where
  "width = 960 div 2"

definition height :: int where
  "height = 500 div 2"

definition alive :: int where
  "alive = 0"

definition dead :: int where
  "dead = 255"

text \<open>
  The functions below take the canvas size as the parameters \<open>w\<close> and \<open>h\<close>, which stand
  for the globals \<open>width\<close> and \<open>height\<close>, so that every result holds for every canvas size;
  \<open>game\<close> instantiates them with the two constants above.
\<close>

subsection \<open>Pixel arrays\<close>

text \<open>
  An \<open>ImageData\<close> object: its size and its \<open>data\<close>, a \<open>Uint8ClampedArray\<close>. Reading such an
  array outside its bounds gives \<open>undefined\<close> (here \<open>None\<close>); storing outside its bounds
  does nothing (the array never grows); a stored number is clamped to a byte.
\<close>

record ImageData =
  img_width :: int
  img_height :: int
  data :: "int list"

definition get_elem :: "int list \<Rightarrow> int \<Rightarrow> int option" where
  "get_elem d i = (if 0 \<le> i \<and> i < int (length d) then Some (d ! nat i) else None)"

definition clamp8 :: "int \<Rightarrow> int" where
  "clamp8 v = (if v < 0 then 0 else if 255 < v then 255 else v)"

definition set_elem :: "int list \<Rightarrow> int \<Rightarrow> int \<Rightarrow> int list" where
  "set_elem d i v = (if 0 \<le> i \<and> i < int (length d) then d[nat i := clamp8 v] else d)"

subsection \<open>Reading and writing one cell\<close>

text \<open>\<open>cell(before, x, y)\<close>: 1 when the red byte at \<open>(x * 4) + (y * width * 4)\<close> is \<open>alive\<close>,
  otherwise 0 (also when the read is \<open>undefined\<close>). The variable \<open>before0\<close> is the source's
  \<open>before\<close>.\<close>

definition cell :: "int \<Rightarrow> ImageData \<Rightarrow> int \<Rightarrow> int \<Rightarrow> int" where
  "cell w before0 x y =
     (if get_elem (data before0) ((x * 4) + (y * w * 4)) = Some alive then 1 else 0)"

definition neighborsLiving :: "int \<Rightarrow> ImageData \<Rightarrow> int \<Rightarrow> int \<Rightarrow> int" where
  "neighborsLiving w before0 x y =
     cell w before0 (x - 1) y +
     cell w before0 (x + 1) y +
     cell w before0 (x + 0) (y + 1) +
     cell w before0 (x + 0) (y - 1) +
     cell w before0 (x + 1) (y + 1) +
     cell w before0 (x + 1) (y - 1) +
     cell w before0 (x - 1) (y + 1) +
     cell w before0 (x - 1) (y - 1)"

text \<open>\<open>self\<close> is the number 1 or 0 and is used as a truth value: it is true when it is not 0.\<close>

definition shouldLive :: "int \<Rightarrow> ImageData \<Rightarrow> int \<Rightarrow> int \<Rightarrow> bool" where
  "shouldLive w before0 x y =
     (let self = cell w before0 x y;
          neighbors = neighborsLiving w before0 x y
      in (self \<noteq> 0 \<and> (neighbors = 2 \<or> neighbors = 3)) \<or>
         (\<not> self \<noteq> 0 \<and> neighbors = 3))"

text \<open>\<open>write(after, x, y, val)\<close> stores four bytes; the result is the object after the call.\<close>

definition "write" :: "int \<Rightarrow> ImageData \<Rightarrow> int \<Rightarrow> int \<Rightarrow> int \<Rightarrow> ImageData" where
  "write w after x y val =
     (let index = (x * 4) + (y * w * 4);
          d0 = set_elem (data after) (index + 0) val;
          d1 = set_elem d0 (index + 1) 255;
          d2 = set_elem d1 (index + 2) 255;
          d3 = set_elem d2 (index + 3) 255
      in after\<lparr>data := d3\<rparr>)"

subsection \<open>The world: canvas, objects, random numbers\<close>

text \<open>
  \<open>write\<close> changes the object it is given, and the caller sees the change. The objects
  therefore live in a store (\<open>heap\<close>) and the program holds references. \<open>canvas\<close> is the
  bitmap of the drawing context, \<open>fresh\<close> the next unused reference, \<open>draws\<close> the number of
  calls of \<open>Math.random()\<close> so far. The canvas has the size \<open>w\<close> by \<open>h\<close> (the program sets
  \<open>canvas.width\<close> and \<open>canvas.height\<close> first), and the program only ever transfers the
  whole canvas: \<open>getImageData(0, 0, width, height)\<close> copies the bitmap into a new object,
  \<open>createImageData(width, height)\<close> makes a new object of transparent black pixels,
  \<open>putImageData(after, 0, 0)\<close> copies the bytes of an object onto the bitmap.
\<close>

type_synonym ref = nat

record world =
  canvas :: ImageData
  heap :: "ref \<Rightarrow> ImageData"
  fresh :: ref
  draws :: nat

definition createImageData :: "int \<Rightarrow> int \<Rightarrow> world \<Rightarrow> ref \<times> world" where
  "createImageData w h s =
     (fresh s,
      s\<lparr>heap := (heap s)(fresh s :=
           \<lparr>img_width = w, img_height = h, data = replicate (nat (4 * w * h)) 0\<rparr>),
        fresh := Suc (fresh s)\<rparr>)"

definition getImageData :: "int \<Rightarrow> int \<Rightarrow> world \<Rightarrow> ref \<times> world" where
  "getImageData w h s =
     (fresh s,
      s\<lparr>heap := (heap s)(fresh s :=
           \<lparr>img_width = w, img_height = h, data = data (canvas s)\<rparr>),
        fresh := Suc (fresh s)\<rparr>)"

definition putImageData :: "ref \<Rightarrow> world \<Rightarrow> world" where
  "putImageData r s = s\<lparr>canvas := (canvas s)\<lparr>data := data (heap s r)\<rparr>\<rparr>"

definition modify :: "ref \<Rightarrow> (ImageData \<Rightarrow> ImageData) \<Rightarrow> world \<Rightarrow> world" where
  "modify r f s = s\<lparr>heap := (heap s)(r := f (heap s r))\<rparr>"

text \<open>\<open>Math.random()\<close>: the k-th call returns \<open>rnd k\<close>, a number in the interval from 0 to 1.\<close>

definition random :: "(nat \<Rightarrow> real) \<Rightarrow> world \<Rightarrow> real \<times> world" where
  "random rnd s = (rnd (draws s), s\<lparr>draws := Suc (draws s)\<rparr>)"

subsection \<open>Loops\<close>

text \<open>\<open>for (var i = i0; i < n; i++) body\<close>, on a state that the body changes.\<close>

function for_loop :: "int \<Rightarrow> int \<Rightarrow> (int \<Rightarrow> 's \<Rightarrow> 's) \<Rightarrow> 's \<Rightarrow> 's" where
  "for_loop i n body s = (if i < n then for_loop (i + 1) n body (body i s) else s)"
  by pat_completeness auto
termination
  by (relation "measure (\<lambda>(i, n, body, s). nat (n - i))") auto

declare for_loop.simps [simp del]

subsection \<open>\<open>seed\<close> and \<open>tick\<close>\<close>

definition seed :: "int \<Rightarrow> int \<Rightarrow> (nat \<Rightarrow> real) \<Rightarrow> world \<Rightarrow> world" where
  "seed w h rnd s =
     (let (after, s1) = createImageData w h s;
          s2 = for_loop 0 w (\<lambda>x. for_loop 0 h (\<lambda>y t.
                 let (r, t') = random rnd t
                 in modify after (\<lambda>img. write w img x y (if r > 0.5 then alive else dead)) t')) s1
      in putImageData after s2)"

text \<open>One call of \<open>tick\<close>, up to \<open>putImageData\<close>. The call ends by asking the timer to call
  \<open>tick\<close> again; \<open>ticks\<close> is the effect of the first \<open>n\<close> calls.\<close>

definition tick :: "int \<Rightarrow> int \<Rightarrow> world \<Rightarrow> world" where
  "tick w h s =
     (let (before0, s1) = getImageData w h s;
          (after, s2) = createImageData w h s1;
          s3 = for_loop 0 w (\<lambda>x. for_loop 0 h (\<lambda>y t.
                 let state = shouldLive w (heap t before0) x y
                 in modify after (\<lambda>img. write w img x y (if state then alive else dead)) t)) s2
      in putImageData after s3)"

fun ticks :: "int \<Rightarrow> int \<Rightarrow> nat \<Rightarrow> world \<Rightarrow> world" where
  "ticks w h 0 s = s"
| "ticks w h (Suc n) s = ticks w h n (tick w h s)"

text \<open>The page when it is loaded: a canvas of transparent black pixels and no objects.\<close>

definition blank :: "int \<Rightarrow> int \<Rightarrow> ImageData" where
  "blank w h = \<lparr>img_width = w, img_height = h, data = replicate (nat (4 * w * h)) 0\<rparr>"

definition initial :: "int \<Rightarrow> int \<Rightarrow> world" where
  "initial w h = \<lparr>canvas = blank w h, heap = (\<lambda>r. blank 0 0), fresh = 0, draws = 0\<rparr>"

text \<open>The program: \<open>seed(); tick();\<close> and then the timer; the world after \<open>n\<close> ticks.\<close>

definition game :: "(nat \<Rightarrow> real) \<Rightarrow> nat \<Rightarrow> world" where
  "game rnd n = ticks width height n (seed width height rnd (initial width height))"

section \<open>Notions used in the statements\<close>

text \<open>The pixel of the cell \<open>(x, y)\<close> is \<open>(v, 255, 255, 255)\<close>.\<close>

definition painted :: "int \<Rightarrow> ImageData \<Rightarrow> int \<Rightarrow> int \<Rightarrow> int \<Rightarrow> bool" where
  "painted w img x y v \<longleftrightarrow>
     get_elem (data img) (4 * (x + y * w) + 0) = Some v \<and>
     get_elem (data img) (4 * (x + y * w) + 1) = Some 255 \<and>
     get_elem (data img) (4 * (x + y * w) + 2) = Some 255 \<and>
     get_elem (data img) (4 * (x + y * w) + 3) = Some 255"

text \<open>The two loops of \<open>tick\<close>, with the two objects they work on.\<close>

definition tick_loops :: "int \<Rightarrow> int \<Rightarrow> ref \<Rightarrow> ref \<Rightarrow> world \<Rightarrow> world" where
  "tick_loops w h before0 after s =
     for_loop 0 w (\<lambda>x. for_loop 0 h (\<lambda>y t.
        modify after (\<lambda>img. write w img x y
          (if shouldLive w (heap t before0) x y then alive else dead)) t)) s"

text \<open>The red byte of the cell \<open>(x, y)\<close> of the grid, taken from the bytes of the image.\<close>

definition red :: "int \<Rightarrow> ImageData \<Rightarrow> int \<Rightarrow> int \<Rightarrow> int" where
  "red w g x y = data g ! nat (4 * (x + y * w))"

text \<open>
  The neighbour count as the specification words it. The specification's \<open>get\<close> gives the
  state of a cell of the grid and dead (0) for every coordinate outside
  \<open>[0, w) \<times> [0, h)\<close>; the count is the sum of \<open>get\<close> over the eight offsets.
\<close>

definition spec_offsets :: "(int \<times> int) list" where
  "spec_offsets = [(-1, -1), (-1, 0), (-1, 1), (0, -1), (0, 1), (1, -1), (1, 0), (1, 1)]"

definition spec_get :: "int \<Rightarrow> int \<Rightarrow> ImageData \<Rightarrow> int \<Rightarrow> int \<Rightarrow> int" where
  "spec_get w h g x y = (if 0 \<le> x \<and> x < w \<and> 0 \<le> y \<and> y < h then cell w g x y else 0)"

definition spec_neighbors :: "int \<Rightarrow> int \<Rightarrow> ImageData \<Rightarrow> int \<Rightarrow> int \<Rightarrow> int" where
  "spec_neighbors w h g x y =
     (\<Sum>(dx, dy) \<leftarrow> spec_offsets. spec_get w h g (x + dx) (y + dy))"

text \<open>The same sum over the eight offsets with the reads of the program, which are
  those of \<open>cell\<close> at every coordinate, also outside the grid.\<close>

definition wrapped_neighbors :: "int \<Rightarrow> ImageData \<Rightarrow> int \<Rightarrow> int \<Rightarrow> int" where
  "wrapped_neighbors w g x y = (\<Sum>(dx, dy) \<leftarrow> spec_offsets. cell w g (x + dx) (y + dy))"

text \<open>Concrete inputs: an image of dead (white) cells, the image with the listed cells
  alive, and a world whose canvas shows a given image.\<close>

definition white :: "int \<Rightarrow> int \<Rightarrow> ImageData" where
  "white w h = \<lparr>img_width = w, img_height = h,
                data = concat (replicate (nat (w * h)) [dead, 255, 255, 255])\<rparr>"

definition picture :: "int \<Rightarrow> int \<Rightarrow> (int \<times> int) list \<Rightarrow> ImageData" where
  "picture w h cells = fold (\<lambda>(x, y) img. write w img x y alive) cells (white w h)"

definition showing :: "ImageData \<Rightarrow> world" where
  "showing img = \<lparr>canvas = img, heap = (\<lambda>r. blank 0 0), fresh = 0, draws = 0\<rparr>"

text \<open>The cells of the grid, in the order in which the loops of the program visit them,
  and those of them that are alive in an image.\<close>

definition cells :: "int \<Rightarrow> int \<Rightarrow> (int \<times> int) list" where
  "cells w h = concat (map (\<lambda>x. map (\<lambda>y. (x, y)) [0..h - 1]) [0..w - 1])"

definition alive_cells :: "int \<Rightarrow> int \<Rightarrow> ImageData \<Rightarrow> (int \<times> int) list" where
  "alive_cells w h g = filter (\<lambda>(x, y). cell w g x y = 1) (cells w h)"

text \<open>An image of the size of the grid in which the pixel of every cell is
  \<open>(alive, 255, 255, 255)\<close> or \<open>(dead, 255, 255, 255)\<close>; and the same read off the bytes: a
  sequence of pixels, each cyan \<open>(0, 255, 255, 255)\<close> or white \<open>(255, 255, 255, 255)\<close>.\<close>

definition two_colour :: "int \<Rightarrow> int \<Rightarrow> ImageData \<Rightarrow> bool" where
  "two_colour w h g \<longleftrightarrow>
     length (data g) = nat (4 * w * h) \<and>
     list_all (\<lambda>(x, y). painted w g x y alive \<or> painted w g x y dead) (cells w h)"

fun cyan_or_white :: "int list \<Rightarrow> bool" where
  "cyan_or_white [] = True"
| "cyan_or_white (r # g # b # a # rest) =
     ((r = 0 \<or> r = 255) \<and> g = 255 \<and> b = 255 \<and> a = 255 \<and> cyan_or_white rest)"
| "cyan_or_white _ = False"

text \<open>
  \<open>cell\<close> reads the byte at \<open>4 * (x + y * w)\<close>, so it only depends on the row-major index
  \<open>x + y * w\<close> of the coordinate (\<open>lin\<close>). \<open>life\<close> is the rule of \<open>shouldLive\<close> on indices:
  \<open>L\<close> is the set of indices of the living cells, and the eight reads of \<open>neighborsLiving\<close>
  at \<open>(x \<plusminus> 1, y \<plusminus> 1)\<close> are reads at the index plus or minus 1, \<open>w\<close>, \<open>w + 1\<close> and \<open>w - 1\<close>.
\<close>

definition lin :: "int \<Rightarrow> int \<times> int \<Rightarrow> int" where
  "lin w = (\<lambda>(x, y). x + y * w)"

definition life :: "int \<Rightarrow> int set \<Rightarrow> int \<Rightarrow> bool" where
  "life w L p \<longleftrightarrow>
     (let n = of_bool (p - 1 \<in> L) + of_bool (p + 1 \<in> L) + of_bool (p + w \<in> L) +
              of_bool (p - w \<in> L) + of_bool (p + 1 + w \<in> L) + of_bool (p + 1 - w \<in> L) +
              of_bool (p - 1 + w \<in> L) + of_bool (p - 1 - w \<in> L) :: int
      in (p \<in> L \<and> (n = 2 \<or> n = 3)) \<or> (p \<notin> L \<and> n = 3))"

section \<open>Pixel arrays and single cells\<close>

lemma length_set_elem [simp]: "length (set_elem d i v) = length d"
  by (simp add: set_elem_def)

lemma get_set_elem:
  "get_elem (set_elem d i v) j =
     (if j = i \<and> 0 \<le> i \<and> i < int (length d) then Some (clamp8 v) else get_elem d j)"
  by (auto simp: get_elem_def set_elem_def nth_list_update nat_eq_iff)

lemma get_elem_None: "i < 0 \<or> int (length d) \<le> i \<Longrightarrow> get_elem d i = None"
  by (auto simp: get_elem_def)

lemma get_elem_range: "get_elem d i = Some v \<Longrightarrow> 0 \<le> i \<and> i < int (length d)"
  by (auto simp: get_elem_def split: if_splits)

lemma index_lin: "(x * 4) + (y * w * 4) = 4 * (x + y * w)" for x :: int
  by (simp add: algebra_simps)

lemma length_write [simp]: "length (data (write w img x y v)) = length (data img)"
  by (simp add: write_def Let_def)

lemma img_width_write [simp]: "img_width (write w img x y v) = img_width img"
  by (simp add: write_def Let_def)

lemma img_height_write [simp]: "img_height (write w img x y v) = img_height img"
  by (simp add: write_def Let_def)

lemma idx_eq:
  fixes p q c k :: int
  assumes "0 \<le> c" "c < 4" "0 \<le> k" "k < 4"
  shows "(4 * q + c = 4 * p + k) = (q = p \<and> c = k)"
  using assms by presburger

lemma get_set_elem_px:
  assumes "0 \<le> c" "c < 4" "0 \<le> k" "k < 4"
  shows "get_elem (set_elem d (4 * p + k) u) (4 * q + c) =
     (if q = p \<and> c = k \<and> 0 \<le> p \<and> 4 * p + k < int (length d)
      then Some (clamp8 u) else get_elem d (4 * q + c))"
proof -
  have "0 \<le> 4 * p + k \<longleftrightarrow> 0 \<le> p"
    using assms by presburger
  then show ?thesis
    by (simp add: get_set_elem idx_eq [OF assms])
qed

lemma data_write:
  "data (write w img x y v) =
     set_elem (set_elem (set_elem (set_elem (data img) (4 * (x + y * w) + 0) v)
       (4 * (x + y * w) + 1) 255) (4 * (x + y * w) + 2) 255) (4 * (x + y * w) + 3) 255"
  unfolding write_def Let_def index_lin by (simp del: add_0_right add.right_neutral)

lemma get_write:
  assumes "0 \<le> c" "c < 4"
  shows "get_elem (data (write w img x y v)) (4 * q + c) =
     (if q = x + y * w \<and> 0 \<le> q \<and> 4 * q + c < int (length (data img))
      then Some (if c = 0 then clamp8 v else 255)
      else get_elem (data img) (4 * q + c))"
proof -
  define p where "p = x + y * w"
  define d0 where "d0 = set_elem (data img) (4 * p + 0) v"
  define d1 where "d1 = set_elem d0 (4 * p + 1) 255"
  define d2 where "d2 = set_elem d1 (4 * p + 2) 255"
  have len: "length d0 = length (data img)" "length d1 = length (data img)"
    "length d2 = length (data img)"
    by (simp_all add: d0_def d1_def d2_def)
  have 1: "clamp8 255 = 255" by (simp add: clamp8_def)
  note r = get_set_elem_px [OF assms, where q = q and p = p]
  have "get_elem (data (write w img x y v)) (4 * q + c) =
        get_elem (set_elem d2 (4 * p + 3) 255) (4 * q + c)"
    unfolding data_write d2_def d1_def d0_def p_def ..
  also have "\<dots> = (if q = p \<and> c = 3 \<and> 0 \<le> p \<and> 4 * p + 3 < int (length (data img))
      then Some 255 else get_elem d2 (4 * q + c))"
    using r [of 3 d2 255] by (simp add: len 1)
  also have "get_elem d2 (4 * q + c) =
     (if q = p \<and> c = 2 \<and> 0 \<le> p \<and> 4 * p + 2 < int (length (data img))
      then Some 255 else get_elem d1 (4 * q + c))"
    unfolding d2_def using r [of 2 d1 255] by (simp add: len 1)
  also have "get_elem d1 (4 * q + c) =
     (if q = p \<and> c = 1 \<and> 0 \<le> p \<and> 4 * p + 1 < int (length (data img))
      then Some 255 else get_elem d0 (4 * q + c))"
    unfolding d1_def using r [of 1 d0 255] by (simp add: len 1)
  also have "get_elem d0 (4 * q + c) =
     (if q = p \<and> c = 0 \<and> 0 \<le> p \<and> 4 * p + 0 < int (length (data img))
      then Some (clamp8 v) else get_elem (data img) (4 * q + c))"
    unfolding d0_def by (rule r) simp_all
  finally have "get_elem (data (write w img x y v)) (4 * q + c) =
     (if q = p \<and> c = 3 \<and> 0 \<le> p \<and> 4 * p + 3 < int (length (data img)) then Some 255
      else if q = p \<and> c = 2 \<and> 0 \<le> p \<and> 4 * p + 2 < int (length (data img)) then Some 255
      else if q = p \<and> c = 1 \<and> 0 \<le> p \<and> 4 * p + 1 < int (length (data img)) then Some 255
      else if q = p \<and> c = 0 \<and> 0 \<le> p \<and> 4 * p + 0 < int (length (data img))
      then Some (clamp8 v) else get_elem (data img) (4 * q + c))" .
  moreover have "c = 0 \<or> c = 1 \<or> c = 2 \<or> c = 3"
    using assms by arith
  ultimately show ?thesis
    unfolding p_def [symmetric] by auto
qed

lemma cell_lin: "cell w img x y = cell w img (x + y * w) 0"
  by (simp add: cell_def algebra_simps)

lemma in_grid_lin:
  fixes x y w h :: int
  assumes "0 \<le> x" "x < w" "0 \<le> y" "y < h"
  shows "0 \<le> x + y * w" "x + y * w < w * h"
proof -
  from assms have w: "0 < w" by linarith
  from assms show "0 \<le> x + y * w" by simp
  have "(y + 1) * w \<le> h * w"
    using assms w by (intro mult_right_mono) auto
  then show "x + y * w < w * h"
    using assms by (simp add: algebra_simps)
qed

lemma lin_inj:
  fixes x y w :: int
  assumes "0 \<le> x" "x < w" "0 \<le> x'" "x' < w" "x + y * w = x' + y' * w"
  shows "x = x' \<and> y = y'"
proof -
  have w: "w \<noteq> 0" using assms by auto
  have "(x + y * w) div w = y" "(x' + y' * w) div w = y'"
    using assms(1-4) w by (simp_all add: div_pos_pos_trivial)
  with assms(5) have "y = y'" by simp
  with assms(5) show ?thesis by simp
qed

lemma lin_decomp:
  fixes p w h :: int
  assumes "0 < w" "0 \<le> p" "p < w * h"
  shows "0 \<le> p mod w" "p mod w < w" "0 \<le> p div w" "p div w < h" "p mod w + (p div w) * w = p"
proof -
  show "0 \<le> p mod w" "p mod w < w" "0 \<le> p div w" "p mod w + (p div w) * w = p"
    using assms by (simp_all add: pos_imp_zdiv_nonneg_iff)
  have le: "(p div w) * w \<le> p"
    using assms \<open>0 \<le> p mod w\<close> \<open>p mod w + (p div w) * w = p\<close> by linarith
  show "p div w < h"
  proof (rule ccontr)
    assume "\<not> p div w < h"
    then have "h * w \<le> (p div w) * w"
      using assms by (intro mult_right_mono) auto
    moreover have "w * h = h * w" by simp
    ultimately show False using le assms(3) by linarith
  qed
qed

section \<open>Loops\<close>

lemma for_loop_done: "n \<le> i \<Longrightarrow> for_loop i n body s = s"
  by (simp add: for_loop.simps)

lemma for_loop_rule:
  assumes "i \<le> n" "P i s"
    and "\<And>j t. i \<le> j \<Longrightarrow> j < n \<Longrightarrow> P j t \<Longrightarrow> P (j + 1) (body j t)"
  shows "P n (for_loop i n body s)"
  using assms
proof (induction i n body s rule: for_loop.induct)
  case (1 i n body s)
  show ?case
  proof (cases "i < n")
    case True
    have "P n (for_loop (i + 1) n body (body i s))"
    proof (rule "1.IH")
      show "i < n" by fact
      show "i + 1 \<le> n" using True by simp
      show "P (i + 1) (body i s)" using "1.prems" True by simp
      show "\<And>j t. i + 1 \<le> j \<Longrightarrow> j < n \<Longrightarrow> P j t \<Longrightarrow> P (j + 1) (body j t)"
        using "1.prems"(3) by simp
    qed
    with True show ?thesis by (simp add: for_loop.simps [of i])
  next
    case False
    with "1.prems" have "i = n" by simp
    with "1.prems" show ?thesis by (simp add: for_loop.simps [of n])
  qed
qed

lemma for_loop_keeps:
  assumes "\<And>j t. f (body j t) = f t"
  shows "f (for_loop i n body s) = f s"
proof (cases "i \<le> n")
  case True
  then show ?thesis
    by (rule for_loop_rule [where P = "\<lambda>j t. f t = f s"]) (simp_all add: assms)
next
  case False
  then show ?thesis by (simp add: for_loop_done)
qed

lemma get_write0:
  "get_elem (data (write w img x y v)) (4 * q) =
     (if q = x + y * w \<and> 0 \<le> q \<and> 4 * q < int (length (data img))
      then Some (clamp8 v) else get_elem (data img) (4 * q))"
  using get_write [of 0 w img x y v q] by simp

lemma painted_write_same:
  assumes "0 \<le> x" "x < w" "0 \<le> y" "y < h" "length (data img) = nat (4 * w * h)"
  shows "painted w (write w img x y v) x y (clamp8 v)"
proof -
  define p where "p = x + y * w"
  have "0 \<le> p" "p < w * h"
    unfolding p_def using assms(1-4) by (rule in_grid_lin)+
  then have "0 \<le> p \<and> 4 * p + 3 < int (length (data img))"
    using assms(5) by (simp add: algebra_simps)
  then show ?thesis
    unfolding painted_def p_def [symmetric]
    by (simp add: get_write get_write0 p_def [symmetric])
qed

lemma painted_write_other:
  assumes "0 \<le> x" "x < w" "0 \<le> x'" "x' < w" "(x', y') \<noteq> (x, y)"
  shows "painted w (write w img x y v) x' y' u = painted w img x' y' u"
proof -
  define p where "p = x' + y' * w"
  have "p \<noteq> x + y * w"
    unfolding p_def using assms lin_inj [of x' w x y' y] by auto
  then show ?thesis
    unfolding painted_def p_def [symmetric]
    by (simp add: get_write get_write0)
qed

lemma fill_rule:
  fixes body :: "int \<Rightarrow> int \<Rightarrow> world \<Rightarrow> world"
  assumes size: "length (data (heap s after)) = nat (4 * w * h)"
    and step: "\<And>x y t. 0 \<le> x \<Longrightarrow> x < w \<Longrightarrow> 0 \<le> y \<Longrightarrow> y < h \<Longrightarrow>
         (\<forall>r. r \<noteq> after \<longrightarrow> heap t r = heap s r) \<Longrightarrow>
         \<exists>v. Q x y v \<and> clamp8 v = v \<and>
             heap (body x y t) = (heap t)(after := write w (heap t after) x y v)"
  defines "s' \<equiv> for_loop 0 w (\<lambda>x. for_loop 0 h (body x)) s"
  shows "(\<forall>r. r \<noteq> after \<longrightarrow> heap s' r = heap s r) \<and>
         length (data (heap s' after)) = nat (4 * w * h) \<and>
         img_width (heap s' after) = img_width (heap s after) \<and>
         img_height (heap s' after) = img_height (heap s after) \<and>
         (\<forall>x y. 0 \<le> x \<and> x < w \<and> 0 \<le> y \<and> y < h \<longrightarrow>
            (\<exists>v. Q x y v \<and> painted w (heap s' after) x y v))"
proof -
  define Inv where "Inv X Y t \<longleftrightarrow>
      (\<forall>r. r \<noteq> after \<longrightarrow> heap t r = heap s r) \<and>
      length (data (heap t after)) = nat (4 * w * h) \<and>
      img_width (heap t after) = img_width (heap s after) \<and>
      img_height (heap t after) = img_height (heap s after) \<and>
      (\<forall>x y. 0 \<le> x \<and> x < w \<and> 0 \<le> y \<and> y < h \<and> (x < X \<or> (x = X \<and> y < Y)) \<longrightarrow>
         (\<exists>v. Q x y v \<and> painted w (heap t after) x y v))" for X Y and t :: world
  have cell_step: "Inv x (y + 1) (body x y t)"
    if xy: "0 \<le> x" "x < w" "0 \<le> y" "y < h" and inv: "Inv x y t" for x y t
  proof -
    from inv have frame: "\<forall>r. r \<noteq> after \<longrightarrow> heap t r = heap s r"
      and len: "length (data (heap t after)) = nat (4 * w * h)"
      and dims: "img_width (heap t after) = img_width (heap s after)"
                "img_height (heap t after) = img_height (heap s after)"
      and old: "\<And>x' y'. 0 \<le> x' \<Longrightarrow> x' < w \<Longrightarrow> 0 \<le> y' \<Longrightarrow> y' < h \<Longrightarrow>
                   x' < x \<or> (x' = x \<and> y' < y) \<Longrightarrow>
                   \<exists>v. Q x' y' v \<and> painted w (heap t after) x' y' v"
      by (auto simp: Inv_def)
    from step [OF xy frame] obtain v where v: "Q x y v" "clamp8 v = v"
      and hp: "heap (body x y t) = (heap t)(after := write w (heap t after) x y v)"
      by blast
    have new: "\<exists>u. Q x' y' u \<and> painted w (heap (body x y t) after) x' y' u"
      if c: "0 \<le> x'" "x' < w" "0 \<le> y'" "y' < h" "x' < x \<or> (x' = x \<and> y' < y + 1)"
      for x' y'
    proof (cases "(x', y') = (x, y)")
      case True
      have "painted w (write w (heap t after) x y v) x y (clamp8 v)"
        using xy len by (rule painted_write_same)
      with v True show ?thesis by (auto simp: hp)
    next
      case False
      with c have "x' < x \<or> (x' = x \<and> y' < y)" by auto
      from old [OF c(1-4) this] obtain u
        where u: "Q x' y' u" "painted w (heap t after) x' y' u" by blast
      have "painted w (write w (heap t after) x y v) x' y' u"
        using u(2) painted_write_other [OF xy(1,2) c(1,2) False] by simp
      with u(1) show ?thesis by (auto simp: hp)
    qed
    show ?thesis
      unfolding Inv_def using frame len dims new by (simp add: hp)
  qed
  have column: "Inv (x + 1) 0 (for_loop 0 h (body x) t)"
    if x: "0 \<le> x" "x < w" and inv: "Inv x 0 t" for x t
  proof (cases "0 \<le> h")
    case True
    then have "Inv x h (for_loop 0 h (body x) t)"
      using inv
    proof (rule for_loop_rule [where P = "Inv x"])
      fix y t'
      assume "0 \<le> y" "y < h" "Inv x y t'"
      with x show "Inv x (y + 1) (body x y t')" by (intro cell_step)
    qed
    then show ?thesis
      unfolding Inv_def by (auto simp: less_le)
  next
    case False
    then have "for_loop 0 h (body x) t = t"
      by (simp add: for_loop_done)
    with inv False show ?thesis
      unfolding Inv_def by auto
  qed
  have start: "Inv 0 0 s"
    unfolding Inv_def using size by auto
  have "Inv w 0 s'"
  proof (cases "0 \<le> w")
    case True
    then show ?thesis
      unfolding s'_def using start
    proof (rule for_loop_rule [where P = "\<lambda>X. Inv X 0"])
      fix x t
      assume "0 \<le> x" "x < w" "Inv x 0 t"
      then show "Inv (x + 1) 0 (for_loop 0 h (body x) t)" by (rule column)
    qed
  next
    case False
    then have "s' = s"
      by (simp add: s'_def for_loop_done)
    with start False show ?thesis
      unfolding Inv_def by auto
  qed
  then show ?thesis
    unfolding Inv_def by auto
qed

section \<open>What one tick computes\<close>

lemma cell_data_cong: "data a = data b \<Longrightarrow> cell w a x y = cell w b x y"
  by (simp add: cell_def)

lemma shouldLive_data_cong: "data a = data b \<Longrightarrow> shouldLive w a x y = shouldLive w b x y"
  by (simp add: shouldLive_def neighborsLiving_def cell_data_cong [of a b])

lemma painted_data_cong: "data a = data b \<Longrightarrow> painted w a x y v = painted w b x y v"
  by (simp add: painted_def)

lemma nested_keeps:
  assumes "\<And>x y t. f (body x y t) = f t"
  shows "f (for_loop 0 w (\<lambda>x. for_loop 0 h (body x)) s) = f s"
  by (rule for_loop_keeps) (rule for_loop_keeps, rule assms)

lemma heap_modify: "heap (modify r f t) = (heap t)(r := f (heap t r))"
  by (simp add: modify_def)

lemma canvas_modify: "canvas (modify r f t) = canvas t"
  by (simp add: modify_def)

lemma clamp8_alive_dead: "clamp8 (if b then alive else dead) = (if b then alive else dead)"
  by (simp add: clamp8_def alive_def dead_def)

lemma tick_eq:
  "tick w h s =
     putImageData (Suc (fresh s))
       (tick_loops w h (fresh s) (Suc (fresh s))
          (snd (createImageData w h (snd (getImageData w h s)))))"
  by (simp add: tick_def tick_loops_def getImageData_def createImageData_def Let_def)

lemma tick_loops_result:
  assumes size: "length (data (heap s after)) = nat (4 * w * h)"
    and ne: "before \<noteq> after"
  defines "s' \<equiv> tick_loops w h before after s"
  shows "(\<forall>r. r \<noteq> after \<longrightarrow> heap s' r = heap s r) \<and>
         length (data (heap s' after)) = nat (4 * w * h) \<and>
         img_width (heap s' after) = img_width (heap s after) \<and>
         img_height (heap s' after) = img_height (heap s after) \<and>
         (\<forall>x y. 0 \<le> x \<and> x < w \<and> 0 \<le> y \<and> y < h \<longrightarrow>
            painted w (heap s' after) x y
              (if shouldLive w (heap s before) x y then alive else dead))"
proof -
  let ?Q = "\<lambda>x y v. v = (if shouldLive w (heap s before) x y then alive else dead)"
  have "(\<forall>r. r \<noteq> after \<longrightarrow> heap s' r = heap s r) \<and>
         length (data (heap s' after)) = nat (4 * w * h) \<and>
         img_width (heap s' after) = img_width (heap s after) \<and>
         img_height (heap s' after) = img_height (heap s after) \<and>
         (\<forall>x y. 0 \<le> x \<and> x < w \<and> 0 \<le> y \<and> y < h \<longrightarrow>
            (\<exists>v. ?Q x y v \<and> painted w (heap s' after) x y v))"
    unfolding s'_def tick_loops_def
  proof (rule fill_rule [OF size])
    fix x y and t :: world
    assume "\<forall>r. r \<noteq> after \<longrightarrow> heap t r = heap s r"
    with ne have "heap t before = heap s before" by simp
    then show "\<exists>v. ?Q x y v \<and> clamp8 v = v \<and>
        heap (modify after (\<lambda>img. write w img x y
               (if shouldLive w (heap t before) x y then alive else dead)) t) =
        (heap t)(after := write w (heap t after) x y v)"
      by (simp add: heap_modify clamp8_alive_dead)
  qed
  then show ?thesis by simp
qed

lemma tick_loops_canvas: "canvas (tick_loops w h before after s) = canvas s"
  unfolding tick_loops_def by (rule nested_keeps) (simp add: canvas_modify)

lemma tick_result:
  shows "length (data (canvas (tick w h s))) = nat (4 * w * h)"
    and "img_width (canvas (tick w h s)) = img_width (canvas s)"
    and "img_height (canvas (tick w h s)) = img_height (canvas s)"
    and "\<And>x y. 0 \<le> x \<Longrightarrow> x < w \<Longrightarrow> 0 \<le> y \<Longrightarrow> y < h \<Longrightarrow>
           painted w (canvas (tick w h s)) x y
             (if shouldLive w (canvas s) x y then alive else dead)"
proof -
  define b where "b = fresh s"
  define a where "a = Suc (fresh s)"
  define s2 where "s2 = snd (createImageData w h (snd (getImageData w h s)))"
  define s3 where "s3 = tick_loops w h b a s2"
  have t: "tick w h s = putImageData a s3"
    unfolding s3_def s2_def a_def b_def by (rule tick_eq)
  have ne: "b \<noteq> a" by (simp add: a_def b_def)
  have size: "length (data (heap s2 a)) = nat (4 * w * h)"
    by (simp add: s2_def a_def createImageData_def getImageData_def)
  have B: "data (heap s2 b) = data (canvas s)"
    by (simp add: s2_def a_def b_def createImageData_def getImageData_def)
  have c2: "canvas s2 = canvas s"
    by (simp add: s2_def createImageData_def getImageData_def)
  note res = tick_loops_result [OF size ne, folded s3_def]
  have c3: "canvas s3 = canvas s"
    unfolding s3_def by (simp add: tick_loops_canvas c2)
  show "length (data (canvas (tick w h s))) = nat (4 * w * h)"
    using res by (simp add: t putImageData_def)
  show "img_width (canvas (tick w h s)) = img_width (canvas s)"
    by (simp add: t putImageData_def c3)
  show "img_height (canvas (tick w h s)) = img_height (canvas s)"
    by (simp add: t putImageData_def c3)
  fix x y :: int
  assume xy: "0 \<le> x" "x < w" "0 \<le> y" "y < h"
  with res have "painted w (heap s3 a) x y (if shouldLive w (heap s2 b) x y then alive else dead)"
    by blast
  moreover have "shouldLive w (heap s2 b) x y = shouldLive w (canvas s) x y"
    using B by (rule shouldLive_data_cong)
  moreover have "data (canvas (tick w h s)) = data (heap s3 a)"
    by (simp add: t putImageData_def)
  ultimately show "painted w (canvas (tick w h s)) x y
             (if shouldLive w (canvas s) x y then alive else dead)"
    by (simp add: painted_data_cong [of "canvas (tick w h s)" "heap s3 a"])
qed

lemma painted_cell:
  "painted w img x y v \<Longrightarrow> cell w img x y = (if v = alive then 1 else 0)"
  by (simp add: painted_def cell_def algebra_simps)

lemma neighborsLiving_wrapped: "neighborsLiving w g x y = wrapped_neighbors w g x y"
  by (simp add: neighborsLiving_def wrapped_neighbors_def spec_offsets_def)

lemma cell_01: "cell w g x y = 0 \<or> cell w g x y = 1"
  by (simp add: cell_def)


section \<open>Reads and writes outside the grid\<close>


lemma cell_lin_eq: "x + y * w = x' + y' * w \<Longrightarrow> cell w g x y = cell w g x' y'"
  using cell_lin [of w g x y] cell_lin [of w g x' y'] by simp

lemma write_lin_eq: "x + y * w = x' + y' * w \<Longrightarrow> write w g x y v = write w g x' y' v"
  unfolding write_def index_lin by simp

lemma out_of_buffer:
  fixes p c :: int
  assumes "length d = nat (4 * w * h)" "p < 0 \<or> w * h \<le> p" "0 \<le> c" "c < 4"
  shows "4 * p + c < 0 \<or> int (length d) \<le> 4 * p + c"
  using assms by auto

lemma cell_out:
  assumes "length (data g) = nat (4 * w * h)" "x + y * w < 0 \<or> w * h \<le> x + y * w"
  shows "cell w g x y = 0"
proof -
  have "4 * (x + y * w) + 0 < 0 \<or> int (length (data g)) \<le> 4 * (x + y * w) + 0"
    using assms by (intro out_of_buffer) auto
  then have "get_elem (data g) (4 * (x + y * w)) = None"
    by (intro get_elem_None) simp
  then show ?thesis
    unfolding cell_def index_lin by simp
qed

lemma set_elem_out: "i < 0 \<or> int (length d) \<le> i \<Longrightarrow> set_elem d i v = d"
  by (auto simp: set_elem_def)

lemma write_out:
  assumes "length (data g) = nat (4 * w * h)" "x + y * w < 0 \<or> w * h \<le> x + y * w"
  shows "write w g x y v = g"
proof -
  have "4 * (x + y * w) + c < 0 \<or> int (length (data g)) \<le> 4 * (x + y * w) + c"
    if "0 \<le> c" "c < 4" for c
    using assms that by (intro out_of_buffer) auto
  from this [of 0] this [of 1] this [of 2] this [of 3]
  have "data (write w g x y v) = data g"
    unfolding data_write by (simp add: set_elem_out)
  then show ?thesis
    by (simp add: write_def Let_def)
qed

lemma lin_wrap:
  fixes x y w h :: int
  assumes "1 \<le> w" "0 \<le> x + y * w" "x + y * w < w * h"
  shows "0 \<le> (x + y * w) mod w" "(x + y * w) mod w < w"
    "0 \<le> (x + y * w) div w" "(x + y * w) div w < h"
    "x + y * w = (x + y * w) mod w + ((x + y * w) div w) * w"
  using lin_decomp [of w "x + y * w" h] assms by simp_all

lemma column_in_range:
  fixes x y w h :: int
  assumes "0 \<le> x" "x < w" "\<not> (0 \<le> y \<and> y < h)"
  shows "x + y * w < 0 \<or> w * h \<le> x + y * w"
proof (cases "y < 0")
  case True
  then have "y * w \<le> (- 1) * w"
    using assms by (intro mult_right_mono) auto
  with assms show ?thesis by simp
next
  case False
  with assms have "h \<le> y" by simp
  then have "h * w \<le> y * w"
    using assms by (intro mult_right_mono) auto
  moreover have "w * h = h * w" by simp
  ultimately show ?thesis using assms(1) by linarith
qed

lemma write_other_bytes:
  assumes "0 \<le> x" "x < w" "0 \<le> x'" "x' < w" "(x', y') \<noteq> (x, y)" "0 \<le> c" "c < 4"
  shows "get_elem (data (write w g x y v)) (4 * (x' + y' * w) + c) =
         get_elem (data g) (4 * (x' + y' * w) + c)"
proof -
  have "x' + y' * w \<noteq> x + y * w"
    using assms lin_inj [of x' w x y' y] by auto
  then show ?thesis
    using get_write [OF assms(6,7), of w g x y v "x' + y' * w"] by simp
qed

lemma write_other_cell:
  assumes "0 \<le> x" "x < w" "0 \<le> x'" "x' < w" "(x', y') \<noteq> (x, y)"
  shows "cell w (write w g x y v) x' y' = cell w g x' y'"
  using write_other_bytes [OF assms, of 0 g v]
  unfolding cell_def index_lin by simp

lemma cell_red:
  assumes "length (data g) = nat (4 * w * h)" "0 \<le> x + y * w" "x + y * w < w * h"
  shows "cell w g x y = (if red w g x y = alive then 1 else 0)"
proof -
  define p where "p = x + y * w"
  define q where "q = w * h"
  have p: "0 \<le> p" "p < q"
    using assms(2,3) by (simp_all add: p_def q_def)
  have "length (data g) = nat (4 * q)"
    using assms(1) by (simp add: q_def mult.assoc)
  with p have "0 \<le> 4 * p" "4 * p < int (length (data g))"
    by simp_all
  then have "get_elem (data g) (4 * p) = Some (data g ! nat (4 * p))"
    by (simp add: get_elem_def)
  then show ?thesis
    unfolding cell_def index_lin red_def p_def [symmetric] by simp
qed

lemma red_lin_eq: "x + y * w = x' + y' * w \<Longrightarrow> red w g x y = red w g x' y'"
  by (simp add: red_def)

lemma column_read:
  assumes "length (data g) = nat (4 * w * h)" "0 \<le> x" "x < w"
  shows "cell w g x y = spec_get w h g x y"
proof (cases "0 \<le> y \<and> y < h")
  case True
  with assms show ?thesis by (simp add: spec_get_def)
next
  case False
  with assms(2,3) have "x + y * w < 0 \<or> w * h \<le> x + y * w"
    by (intro column_in_range) auto
  with assms(1) have "cell w g x y = 0" by (rule cell_out)
  with False show ?thesis by (simp add: spec_get_def)
qed

lemma wrapped_inner:
  assumes "length (data g) = nat (4 * w * h)" "1 \<le> x" "x \<le> w - 2"
  shows "wrapped_neighbors w g x y = spec_neighbors w h g x y"
proof -
  have "cell w g (x + dx) y' = spec_get w h g (x + dx) y'"
    if "dx = - 1 \<or> dx = 0 \<or> dx = 1" for dx y'
    using assms that by (intro column_read) auto
  from this [of "- 1"] this [of 0] this [of 1] show ?thesis
    by (simp add: wrapped_neighbors_def spec_neighbors_def spec_offsets_def)
qed

lemma wrapped_read:
  assumes "length (data g) = nat (4 * w * h)" "1 \<le> w"
    and "0 \<le> x + y * w \<and> x + y * w < w * h"
  shows "cell w g x y = cell w g ((x + y * w) mod w) ((x + y * w) div w) \<and>
         cell w g x y = (if red w g ((x + y * w) mod w) ((x + y * w) div w) = alive then 1 else 0) \<and>
         0 \<le> (x + y * w) mod w \<and> (x + y * w) mod w < w \<and>
         0 \<le> (x + y * w) div w \<and> (x + y * w) div w < h"
proof -
  from assms(3) have b: "0 \<le> x + y * w" "x + y * w < w * h" by simp_all
  note l = lin_wrap [OF assms(2) b]
  have "cell w g x y = (if red w g x y = alive then 1 else 0)"
    using assms(1) b by (rule cell_red)
  moreover have "red w g x y = red w g ((x + y * w) mod w) ((x + y * w) div w)"
    using l(5) by (rule red_lin_eq)
  moreover have "cell w g x y = cell w g ((x + y * w) mod w) ((x + y * w) div w)"
    using l(5) by (rule cell_lin_eq)
  ultimately show ?thesis using l(1-4) by simp
qed

text \<open>
  Claim C9. The reads of \<open>cell\<close> go through the row-major buffer: for a grid of width at
  least 1, \<open>cell\<close> at \<open>(-1, y)\<close> with \<open>1 \<le> y < h\<close> is the state of the in-grid cell
  \<open>(w - 1, y - 1)\<close>, \<open>cell\<close> at \<open>(w, y)\<close> with \<open>0 \<le> y < h - 1\<close> is the state of the in-grid
  cell \<open>(0, y + 1)\<close>: it is 1 exactly when the red byte of that cell is \<open>alive\<close>. A read
  whose row-major index lies outside the buffer, such as \<open>(-1, 0)\<close> or \<open>(w, h - 1)\<close>, gives
  0 (dead), and every other read gives the state of the in-grid cell with the same index,
  1 exactly when the red byte of that cell is \<open>alive\<close>.
\<close>

theorem cell_wraps:
  assumes "length (data g) = nat (4 * w * h)" "1 \<le> w"
  shows "(\<forall>y. 1 \<le> y \<and> y < h \<longrightarrow>
            cell w g (- 1) y = cell w g (w - 1) (y - 1) \<and>
            cell w g (- 1) y = (if red w g (w - 1) (y - 1) = alive then 1 else 0)) \<and>
         (\<forall>y. 0 \<le> y \<and> y < h - 1 \<longrightarrow>
            cell w g w y = cell w g 0 (y + 1) \<and>
            cell w g w y = (if red w g 0 (y + 1) = alive then 1 else 0)) \<and>
         cell w g (- 1) 0 = 0 \<and> cell w g w (h - 1) = 0 \<and>
         (\<forall>x y. x + y * w < 0 \<or> w * h \<le> x + y * w \<longrightarrow> cell w g x y = 0) \<and>
         (\<forall>x y. 0 \<le> x + y * w \<and> x + y * w < w * h \<longrightarrow>
            cell w g x y = cell w g ((x + y * w) mod w) ((x + y * w) div w) \<and>
            cell w g x y =
              (if red w g ((x + y * w) mod w) ((x + y * w) div w) = alive then 1 else 0))"
proof -
  have grid: "cell w g x y = (if red w g x y = alive then 1 else 0)"
    if "0 \<le> x" "x < w" "0 \<le> y" "y < h" for x y
    using assms(1) in_grid_lin [OF that] by (rule cell_red)
  have a: "cell w g (- 1) y = cell w g (w - 1) (y - 1)" for y
    by (rule cell_lin_eq) (simp add: algebra_simps)
  have a': "cell w g (- 1) y = (if red w g (w - 1) (y - 1) = alive then 1 else 0)"
    if "1 \<le> y \<and> y < h" for y
    unfolding a using that assms(2) by (intro grid) auto
  have b: "cell w g w y = cell w g 0 (y + 1)" for y
    by (rule cell_lin_eq) (simp add: algebra_simps)
  have b': "cell w g w y = (if red w g 0 (y + 1) = alive then 1 else 0)"
    if "0 \<le> y \<and> y < h - 1" for y
    unfolding b using that assms(2) by (intro grid) auto
  have c: "cell w g x y = 0" if "x + y * w < 0 \<or> w * h \<le> x + y * w" for x y
    using assms(1) that by (rule cell_out)
  have d: "cell w g (- 1) 0 = 0" "cell w g w (h - 1) = 0"
    by (rule c, simp add: algebra_simps)+
  have e: "cell w g x y = cell w g ((x + y * w) mod w) ((x + y * w) div w) \<and>
           cell w g x y =
              (if red w g ((x + y * w) mod w) ((x + y * w) div w) = alive then 1 else 0)"
    if "0 \<le> x + y * w \<and> x + y * w < w * h" for x y
    using wrapped_read [OF assms that] by blast
  from a a' b b' c d e show ?thesis by blast
qed

theorem cell_wraps_witness:
  "cell 3 (picture 3 2 [(2, 0)]) (- 1) 1 = 1 \<and> cell 3 (picture 3 2 [(2, 0)]) 3 0 = 0 \<and>
   cell 3 (picture 3 2 [(2, 0)]) (- 1) 0 = 0 \<and> cell 3 (picture 3 2 [(2, 0)]) 3 1 = 0"
proof -
  have len: "length (data (picture 3 2 [(2, 0)])) = nat (4 * 3 * 2)"
    by code_simp
  have r: "red 3 (picture 3 2 [(2, 0)]) 2 0 = 0" "red 3 (picture 3 2 [(2, 0)]) 0 1 = 255"
    by code_simp+
  have w: "(1::int) \<le> 3" by simp
  note t = cell_wraps [OF len w]
  from t have
    "\<forall>y. 1 \<le> y \<and> y < 2 \<longrightarrow>
        cell 3 (picture 3 2 [(2, 0)]) (- 1) y = cell 3 (picture 3 2 [(2, 0)]) (3 - 1) (y - 1) \<and>
        cell 3 (picture 3 2 [(2, 0)]) (- 1) y =
          (if red 3 (picture 3 2 [(2, 0)]) (3 - 1) (y - 1) = alive then 1 else 0)"
    "\<forall>y. 0 \<le> y \<and> y < 2 - 1 \<longrightarrow>
        cell 3 (picture 3 2 [(2, 0)]) 3 y = cell 3 (picture 3 2 [(2, 0)]) 0 (y + 1) \<and>
        cell 3 (picture 3 2 [(2, 0)]) 3 y =
          (if red 3 (picture 3 2 [(2, 0)]) 0 (y + 1) = alive then 1 else 0)"
    "cell 3 (picture 3 2 [(2, 0)]) (- 1) 0 = 0" "cell 3 (picture 3 2 [(2, 0)]) 3 (2 - 1) = 0"
    by blast+
  from this(1) [rule_format, of 1] this(2) [rule_format, of 0] this(3,4) r show ?thesis
    by (simp add: alive_def)
qed

text \<open>
  Claim C2, as amended. For a grid of size at least 1 by 1 and a coordinate \<open>(x, y)\<close>
  outside the grid, \<open>cell\<close> gives 0 (dead) when the column \<open>x\<close> is inside \<open>[0, w)\<close> (reads
  above the first and below the last row), and whenever the row-major index \<open>x + y * w\<close>
  lies outside \<open>[0, w * h)\<close>; for the other coordinates outside the grid it gives the state
  of the in-grid cell \<open>((x + y * w) mod w, (x + y * w) div w)\<close>: 1 when the red byte of
  that cell is \<open>alive\<close>, and 0 when it is not.
\<close>

theorem cell_off_grid:
  assumes "length (data g) = nat (4 * w * h)" "1 \<le> w" "1 \<le> h"
    and "\<not> (0 \<le> x \<and> x < w \<and> 0 \<le> y \<and> y < h)"
  shows "(0 \<le> x \<and> x < w \<longrightarrow> cell w g x y = 0) \<and>
         (x + y * w < 0 \<or> w * h \<le> x + y * w \<longrightarrow> cell w g x y = 0) \<and>
         (0 \<le> x + y * w \<and> x + y * w < w * h \<longrightarrow>
            cell w g x y = cell w g ((x + y * w) mod w) ((x + y * w) div w) \<and>
            cell w g x y =
              (if red w g ((x + y * w) mod w) ((x + y * w) div w) = alive then 1 else 0) \<and>
            0 \<le> (x + y * w) mod w \<and> (x + y * w) mod w < w \<and>
            0 \<le> (x + y * w) div w \<and> (x + y * w) div w < h)"
proof -
  have out: "cell w g x y = 0" if "x + y * w < 0 \<or> w * h \<le> x + y * w"
    using assms(1) that by (rule cell_out)
  have col: "cell w g x y = 0" if "0 \<le> x \<and> x < w"
    using that assms(4) by (intro out column_in_range) auto
  from out col wrapped_read [OF assms(1,2)] show ?thesis by blast
qed

theorem cell_off_grid_witness:
  "cell 2 (picture 2 2 [(0, 1)]) 2 0 = 1 \<and> cell 2 (picture 2 2 [(0, 1)]) (- 1) 1 = 0 \<and>
   cell 2 (picture 2 2 [(0, 1)]) 0 (- 1) = 0 \<and> cell 2 (picture 2 2 [(0, 1)]) 1 2 = 0"
proof -
  have len: "length (data (picture 2 2 [(0, 1)])) = nat (4 * 2 * 2)"
    by code_simp
  have r: "red 2 (picture 2 2 [(0, 1)]) 0 1 = 0" "red 2 (picture 2 2 [(0, 1)]) 1 0 = 255"
    by code_simp+
  show ?thesis
    using cell_off_grid [OF len, of 2 0] cell_off_grid [OF len, of "- 1" 1]
      cell_off_grid [OF len, of 0 "- 1"] cell_off_grid [OF len, of 1 2] r
    by (simp add: alive_def)
qed

text \<open>
  Claim C2 as stated (every read outside the grid is dead) fails: on the 2 by 2 grid
  whose only living cell is \<open>(1, 0)\<close>, the read at \<open>(-1, 1)\<close> gives 1, the state of that
  cell; on the grid of dead cells the same read gives 0.
\<close>

theorem cell_off_grid_counterexample:
  "\<not> (0 \<le> (- 1 :: int)) \<and> cell 2 (picture 2 2 [(1, 0)]) (- 1) 1 = 1 \<and>
   cell 2 (picture 2 2 [(1, 0)]) 1 0 = 1 \<and> cell 2 (white 2 2) (- 1) 1 = 0"
  by code_simp

text \<open>
  Claim C8, as amended. \<open>write\<close> never fails: it has no error result, for any coordinate.
  On a grid of size at least 1 by 1, for a coordinate inside the grid it sets exactly
  that cell: the pixel becomes \<open>(val, 255, 255, 255)\<close> with \<open>val\<close> clamped to a byte, so the
  cell is alive exactly when \<open>val \<le> 0\<close>, and the bytes of every other cell of the grid
  stay as they were. For a coordinate whose row-major index \<open>x + y * w\<close> lies outside
  \<open>[0, w * h)\<close> it changes nothing; for any coordinate with the index inside, it is the
  write to the in-grid cell \<open>((x + y * w) mod w, (x + y * w) div w)\<close>. The size of the image
  never changes.
\<close>

theorem write_cells:
  assumes "length (data g) = nat (4 * w * h)" "1 \<le> w" "1 \<le> h"
  shows "(0 \<le> x \<and> x < w \<and> 0 \<le> y \<and> y < h \<longrightarrow>
            painted w (write w g x y val) x y (clamp8 val) \<and>
            cell w (write w g x y val) x y = (if val \<le> 0 then 1 else 0) \<and>
            (\<forall>x' y'. 0 \<le> x' \<and> x' < w \<and> 0 \<le> y' \<and> y' < h \<and> (x', y') \<noteq> (x, y) \<longrightarrow>
               cell w (write w g x y val) x' y' = cell w g x' y' \<and>
               (\<forall>c. 0 \<le> c \<and> c < 4 \<longrightarrow>
                  get_elem (data (write w g x y val)) (4 * (x' + y' * w) + c) =
                  get_elem (data g) (4 * (x' + y' * w) + c)))) \<and>
         (x + y * w < 0 \<or> w * h \<le> x + y * w \<longrightarrow> write w g x y val = g) \<and>
         (0 \<le> x + y * w \<and> x + y * w < w * h \<longrightarrow>
            write w g x y val = write w g ((x + y * w) mod w) ((x + y * w) div w) val \<and>
            0 \<le> (x + y * w) mod w \<and> (x + y * w) mod w < w \<and>
            0 \<le> (x + y * w) div w \<and> (x + y * w) div w < h) \<and>
         length (data (write w g x y val)) = length (data g) \<and>
         img_width (write w g x y val) = img_width g \<and>
         img_height (write w g x y val) = img_height g"
proof -
  have inside: "painted w (write w g x y val) x y (clamp8 val) \<and>
            cell w (write w g x y val) x y = (if val \<le> 0 then 1 else 0) \<and>
            (\<forall>x' y'. 0 \<le> x' \<and> x' < w \<and> 0 \<le> y' \<and> y' < h \<and> (x', y') \<noteq> (x, y) \<longrightarrow>
               cell w (write w g x y val) x' y' = cell w g x' y' \<and>
               (\<forall>c. 0 \<le> c \<and> c < 4 \<longrightarrow>
                  get_elem (data (write w g x y val)) (4 * (x' + y' * w) + c) =
                  get_elem (data g) (4 * (x' + y' * w) + c)))"
    if xy: "0 \<le> x \<and> x < w \<and> 0 \<le> y \<and> y < h"
  proof -
    have p: "painted w (write w g x y val) x y (clamp8 val)"
      using xy assms(1) by (intro painted_write_same) auto
    have "(clamp8 val = alive) = (val \<le> 0)"
      by (auto simp: clamp8_def alive_def)
    with p have c: "cell w (write w g x y val) x y = (if val \<le> 0 then 1 else 0)"
      by (simp add: painted_cell)
    have others: "cell w (write w g x y val) x' y' = cell w g x' y' \<and>
               (\<forall>c. 0 \<le> c \<and> c < 4 \<longrightarrow>
                  get_elem (data (write w g x y val)) (4 * (x' + y' * w) + c) =
                  get_elem (data g) (4 * (x' + y' * w) + c))"
      if o: "0 \<le> x' \<and> x' < w \<and> 0 \<le> y' \<and> y' < h \<and> (x', y') \<noteq> (x, y)" for x' y'
    proof -
      from xy o have a: "0 \<le> x" "x < w" "0 \<le> x'" "x' < w" "(x', y') \<noteq> (x, y)"
        by blast+
      show ?thesis
        using write_other_cell [OF a] write_other_bytes [OF a] by blast
    qed
    from p c others show ?thesis by blast
  qed
  have outside: "write w g x y val = g" if "x + y * w < 0 \<or> w * h \<le> x + y * w"
    using assms(1) that by (rule write_out)
  have wrap: "write w g x y val = write w g ((x + y * w) mod w) ((x + y * w) div w) val \<and>
            0 \<le> (x + y * w) mod w \<and> (x + y * w) mod w < w \<and>
            0 \<le> (x + y * w) div w \<and> (x + y * w) div w < h"
    if "0 \<le> x + y * w \<and> x + y * w < w * h"
    using that assms(2) lin_wrap [of w x y h]
    by (intro conjI write_lin_eq) auto
  from inside outside wrap show ?thesis by simp
qed

theorem write_cells_witness:
  "cell 2 (write 2 (white 2 2) 1 1 alive) 1 1 = 1 \<and>
   cell 2 (write 2 (picture 2 2 [(1, 1)]) 1 1 dead) 1 1 = 0 \<and>
   write 2 (white 2 2) 0 2 alive = white 2 2 \<and>
   write 2 (white 2 2) 2 0 alive = write 2 (white 2 2) 0 1 alive"
proof -
  have len: "length (data (white 2 2)) = nat (4 * 2 * 2)"
    "length (data (picture 2 2 [(1, 1)])) = nat (4 * 2 * 2)"
    by code_simp+
  have v: "alive \<le> 0" "\<not> dead \<le> 0"
    by (simp_all add: alive_def dead_def)
  have two: "(1::int) \<le> 2" by simp
  from write_cells [OF len(1) two two, of 1 1 alive]
    write_cells [OF len(2) two two, of 1 1 dead]
    write_cells [OF len(1) two two, of 0 2 alive]
    write_cells [OF len(1) two two, of 2 0 alive] v
  show ?thesis by simp
qed

text \<open>
  Claim C8 as stated (a write outside the grid fails and changes no cell of the grid)
  fails: on the 2 by 2 grid of dead cells, the write of \<open>alive\<close> at \<open>(-1, 1)\<close> returns an
  image, in which the cell \<open>(1, 0)\<close> is alive.
\<close>

theorem write_cells_counterexample:
  "cell 2 (white 2 2) 1 0 = 0 \<and> cell 2 (write 2 (white 2 2) (- 1) 1 alive) 1 0 = 1"
  by code_simp

section \<open>The rule of one step\<close>

text \<open>
  Claim C1, as amended. For every canvas and every cell \<open>(x, y)\<close> of the grid, the cell is
  alive after \<open>tick\<close> if and only if it was alive and had two or three living neighbours,
  or was dead and had exactly three, where the neighbours are counted as the sum over the
  eight offsets of the program's read \<open>cell\<close> at the offset coordinate, which outside the
  grid reads through the row-major buffer. For a cell that is not in the first or the
  last column (\<open>1 \<le> x \<le> w - 2\<close>) of a canvas of \<open>4 * w * h\<close> bytes, this count is the
  specification's count, the sum of \<open>get\<close> with every coordinate outside the grid dead,
  and the rule holds with that count.
\<close>

theorem step_rule:
  assumes "0 \<le> x" "x < w" "0 \<le> y" "y < h"
  shows "(cell w (canvas (tick w h s)) x y = 1 \<longleftrightarrow>
            (cell w (canvas s) x y = 1 \<and>
               (wrapped_neighbors w (canvas s) x y = 2 \<or> wrapped_neighbors w (canvas s) x y = 3)) \<or>
            (cell w (canvas s) x y = 0 \<and> wrapped_neighbors w (canvas s) x y = 3)) \<and>
         (1 \<le> x \<and> x \<le> w - 2 \<and> length (data (canvas s)) = nat (4 * w * h) \<longrightarrow>
            wrapped_neighbors w (canvas s) x y = spec_neighbors w h (canvas s) x y \<and>
            (cell w (canvas (tick w h s)) x y = 1 \<longleftrightarrow>
               (cell w (canvas s) x y = 1 \<and>
                  (spec_neighbors w h (canvas s) x y = 2 \<or> spec_neighbors w h (canvas s) x y = 3)) \<or>
               (cell w (canvas s) x y = 0 \<and> spec_neighbors w h (canvas s) x y = 3)))"
proof -
  have "painted w (canvas (tick w h s)) x y
          (if shouldLive w (canvas s) x y then alive else dead)"
    using assms by (rule tick_result(4))
  then have "cell w (canvas (tick w h s)) x y = (if shouldLive w (canvas s) x y then 1 else 0)"
    by (simp add: painted_cell alive_def dead_def)
  moreover have "cell w (canvas s) x y \<noteq> 0 \<longleftrightarrow> cell w (canvas s) x y = 1"
    using cell_01 [of w "canvas s" x y] by auto
  ultimately have r: "cell w (canvas (tick w h s)) x y = 1 \<longleftrightarrow>
            (cell w (canvas s) x y = 1 \<and>
               (wrapped_neighbors w (canvas s) x y = 2 \<or> wrapped_neighbors w (canvas s) x y = 3)) \<or>
            (cell w (canvas s) x y = 0 \<and> wrapped_neighbors w (canvas s) x y = 3)"
    by (simp add: shouldLive_def Let_def neighborsLiving_wrapped)
  have "wrapped_neighbors w (canvas s) x y = spec_neighbors w h (canvas s) x y"
    if "1 \<le> x \<and> x \<le> w - 2 \<and> length (data (canvas s)) = nat (4 * w * h)"
    using that by (intro wrapped_inner) auto
  with r show ?thesis by auto
qed

theorem step_rule_witness:
  "cell 4 (canvas (tick 4 3 (showing (picture 4 3 [(0, 1), (1, 1), (2, 1)])))) 1 0 = 1 \<and>
   cell 4 (canvas (tick 4 3 (showing (picture 4 3 [(0, 1), (1, 1), (2, 1)])))) 2 1 = 0"
proof -
  have c: "canvas (showing (picture 4 3 [(0, 1), (1, 1), (2, 1)])) =
      picture 4 3 [(0, 1), (1, 1), (2, 1)]"
    by (simp add: showing_def)
  have "length (data (picture 4 3 [(0, 1), (1, 1), (2, 1)])) = nat (4 * 4 * 3)"
    by code_simp
  moreover have "cell 4 (picture 4 3 [(0, 1), (1, 1), (2, 1)]) 1 0 = 0"
    "cell 4 (picture 4 3 [(0, 1), (1, 1), (2, 1)]) 2 1 = 1"
    by code_simp+
  moreover have "spec_neighbors 4 3 (picture 4 3 [(0, 1), (1, 1), (2, 1)]) 1 0 = 3"
    "spec_neighbors 4 3 (picture 4 3 [(0, 1), (1, 1), (2, 1)]) 2 1 = 1"
    by code_simp+
  ultimately show ?thesis
    using step_rule [of 1 4 0 3 "showing (picture 4 3 [(0, 1), (1, 1), (2, 1)])"]
      step_rule [of 2 4 1 3 "showing (picture 4 3 [(0, 1), (1, 1), (2, 1)])"]
      cell_01 [of 4 "canvas (tick 4 3 (showing (picture 4 3 [(0, 1), (1, 1), (2, 1)])))" 2 1]
    by (auto simp: c)
qed

text \<open>
  Claim C1 as stated (the count is the sum of the grid's \<open>get\<close>, dead outside the grid)
  fails in the last column: on the 3 by 3 grid whose living cells are the middle row, the
  cell \<open>(2, 0)\<close> is dead and has two living neighbours in the grid, and it is alive after
  \<open>tick\<close>, because the reads at \<open>(3, 0)\<close> and \<open>(3, 1)\<close> are those of the cells \<open>(0, 1)\<close>
  and \<open>(0, 2)\<close>.
\<close>

theorem step_rule_counterexample:
  "cell 3 (picture 3 3 [(0, 1), (1, 1), (2, 1)]) 2 0 = 0 \<and>
   spec_neighbors 3 3 (picture 3 3 [(0, 1), (1, 1), (2, 1)]) 2 0 = 2 \<and>
   cell 3 (canvas (tick 3 3 (showing (picture 3 3 [(0, 1), (1, 1), (2, 1)])))) 2 0 = 1"
proof -
  have c: "canvas (showing (picture 3 3 [(0, 1), (1, 1), (2, 1)])) =
      picture 3 3 [(0, 1), (1, 1), (2, 1)]"
    by (simp add: showing_def)
  have "cell 3 (picture 3 3 [(0, 1), (1, 1), (2, 1)]) 2 0 = 0"
    "spec_neighbors 3 3 (picture 3 3 [(0, 1), (1, 1), (2, 1)]) 2 0 = 2"
    by code_simp+
  moreover have "shouldLive 3 (picture 3 3 [(0, 1), (1, 1), (2, 1)]) 2 0"
    by code_simp
  then have "cell 3 (canvas (tick 3 3 (showing (picture 3 3 [(0, 1), (1, 1), (2, 1)])))) 2 0 = 1"
    using painted_cell [OF tick_result(4) [of 2 3 0 3 "showing (picture 3 3 [(0, 1), (1, 1), (2, 1)])"]]
    by (simp add: c)
  ultimately show ?thesis by simp
qed

section \<open>One tick as a function of the canvas\<close>


lemma for_loop_rel:
  assumes "R s1 s2"
    and "\<And>j t1 t2. R t1 t2 \<Longrightarrow> R (body1 j t1) (body2 j t2)"
  shows "R (for_loop i n body1 s1) (for_loop i n body2 s2)"
  using assms
proof (induction i n body1 s1 arbitrary: s2 rule: for_loop.induct)
  case (1 i n body1 s1)
  show ?case
  proof (cases "i < n")
    case True
    have "R (for_loop (i + 1) n body1 (body1 i s1)) (for_loop (i + 1) n body2 (body2 i s2))"
      using True "1.prems" by (intro "1.IH") auto
    with True show ?thesis
      by (simp add: for_loop.simps [of i])
  next
    case False
    with "1.prems" show ?thesis
      by (simp add: for_loop.simps [of i])
  qed
qed

lemma tick_loops_rel:
  assumes "b1 \<noteq> a1" "b2 \<noteq> a2"
    and "heap s1 b1 = heap s2 b2" "heap s1 a1 = heap s2 a2"
  shows "heap (tick_loops w h b1 a1 s1) a1 = heap (tick_loops w h b2 a2 s2) a2"
proof -
  define R where "R t1 t2 \<longleftrightarrow> heap t1 b1 = heap t2 b2 \<and> heap t1 a1 = heap t2 a2"
    for t1 t2 :: world
  have "R (tick_loops w h b1 a1 s1) (tick_loops w h b2 a2 s2)"
    unfolding tick_loops_def
  proof (rule for_loop_rel)
    show "R s1 s2" using assms by (simp add: R_def)
  next
    fix x t1 t2
    assume "R t1 t2"
    then show "R (for_loop 0 h (\<lambda>y t. modify a1 (\<lambda>img. write w img x y
                   (if shouldLive w (heap t b1) x y then alive else dead)) t) t1)
                 (for_loop 0 h (\<lambda>y t. modify a2 (\<lambda>img. write w img x y
                   (if shouldLive w (heap t b2) x y then alive else dead)) t) t2)"
    proof (rule for_loop_rel)
      fix y t1 t2
      assume "R t1 t2"
      then show "R (modify a1 (\<lambda>img. write w img x y
                   (if shouldLive w (heap t1 b1) x y then alive else dead)) t1)
                 (modify a2 (\<lambda>img. write w img x y
                   (if shouldLive w (heap t2 b2) x y then alive else dead)) t2)"
        using assms(1,2) by (simp add: R_def heap_modify)
    qed
  qed
  then show ?thesis by (simp add: R_def)
qed

lemma tick_loops_frame: "r \<noteq> after \<Longrightarrow> heap (tick_loops w h before after s) r = heap s r"
  unfolding tick_loops_def
  by (rule nested_keeps [where f = "\<lambda>t. heap t r"]) (simp add: heap_modify)

lemma tick_heap:
  "heap (tick w h s) r =
     (if r = Suc (fresh s)
      then heap (tick_loops w h (fresh s) (Suc (fresh s))
                  (snd (createImageData w h (snd (getImageData w h s))))) r
      else if r = fresh s then \<lparr>img_width = w, img_height = h, data = data (canvas s)\<rparr>
      else heap s r)"
  by (simp add: tick_eq putImageData_def tick_loops_frame createImageData_def getImageData_def)

lemma tick_canvas:
  "canvas (tick w h s) =
     (canvas s)\<lparr>data := data (heap (tick_loops w h (fresh s) (Suc (fresh s))
        (snd (createImageData w h (snd (getImageData w h s))))) (Suc (fresh s)))\<rparr>"
  by (simp add: tick_eq putImageData_def tick_loops_canvas createImageData_def getImageData_def)

lemma tick_loops_shape:
  "length (data (heap (tick_loops w h before after s) r)) = length (data (heap s r))"
  "img_width (heap (tick_loops w h before after s) r) = img_width (heap s r)"
  "img_height (heap (tick_loops w h before after s) r) = img_height (heap s r)"
  unfolding tick_loops_def
  by (rule nested_keeps, simp add: heap_modify)+

text \<open>
  Claim C3. \<open>tick\<close> is a function of the grid it reads: two calls that start from the same
  canvas, whatever else differs in the two worlds (the objects made so far, the next
  reference, the random numbers drawn), end with identical canvases; and the call does
  not change the grid it reads: the object \<open>before\<close> still holds the bytes it was given
  when the call ends, and no object that existed before the call is changed.
\<close>

theorem tick_pure:
  "(canvas s1 = canvas s2 \<longrightarrow> canvas (tick w h s1) = canvas (tick w h s2)) \<and>
   heap (tick w h s) (fresh s) = \<lparr>img_width = w, img_height = h, data = data (canvas s)\<rparr> \<and>
   (\<forall>r. r < fresh s \<longrightarrow> heap (tick w h s) r = heap s r)"
proof -
  have "canvas (tick w h s1) = canvas (tick w h s2)" if c: "canvas s1 = canvas s2"
  proof -
    have "heap (tick_loops w h (fresh s1) (Suc (fresh s1))
                  (snd (createImageData w h (snd (getImageData w h s1))))) (Suc (fresh s1)) =
          heap (tick_loops w h (fresh s2) (Suc (fresh s2))
                  (snd (createImageData w h (snd (getImageData w h s2))))) (Suc (fresh s2))"
      by (rule tick_loops_rel) (simp_all add: createImageData_def getImageData_def c)
    then show ?thesis
      by (simp add: tick_canvas c)
  qed
  then show ?thesis
    by (simp add: tick_heap)
qed

theorem tick_pure_witness:
  "canvas (tick 2 2 (showing (picture 2 2 [(0, 0)]))) =
   canvas (tick 2 2 ((showing (picture 2 2 [(0, 0)]))
             \<lparr>heap := (\<lambda>r. picture 2 2 [(1, 1)]), fresh := 7, draws := 3\<rparr>))"
  using tick_pure [of "showing (picture 2 2 [(0, 0)])"
      "(showing (picture 2 2 [(0, 0)]))\<lparr>heap := (\<lambda>r. picture 2 2 [(1, 1)]), fresh := 7, draws := 3\<rparr>"
      2 2]
  by (simp add: showing_def)

text \<open>
  Claim C4. The grid that \<open>tick\<close> produces has the width and the height of the grid it
  read: the canvas keeps its size and its number of bytes, and the new object \<open>after\<close> has
  the width, the height and the number of bytes of the object \<open>before\<close>.
\<close>

theorem tick_dims:
  assumes "img_width (canvas s) = w" "img_height (canvas s) = h"
    and "length (data (canvas s)) = nat (4 * w * h)"
  shows "img_width (canvas (tick w h s)) = img_width (canvas s) \<and>
         img_height (canvas (tick w h s)) = img_height (canvas s) \<and>
         length (data (canvas (tick w h s))) = length (data (canvas s)) \<and>
         img_width (heap (tick w h s) (Suc (fresh s))) = img_width (heap (tick w h s) (fresh s)) \<and>
         img_height (heap (tick w h s) (Suc (fresh s))) = img_height (heap (tick w h s) (fresh s)) \<and>
         length (data (heap (tick w h s) (Suc (fresh s)))) =
           length (data (heap (tick w h s) (fresh s)))"
  using assms
  by (simp add: tick_canvas tick_heap tick_loops_shape createImageData_def getImageData_def)

theorem tick_dims_witness:
  "img_width (canvas (tick 3 2 (showing (picture 3 2 [(1, 1)])))) = 3 \<and>
   img_height (canvas (tick 3 2 (showing (picture 3 2 [(1, 1)])))) = 2 \<and>
   length (data (canvas (tick 3 2 (showing (picture 3 2 [(1, 1)]))))) = 24"
proof -
  have "img_width (picture 3 2 [(1, 1)]) = 3" "img_height (picture 3 2 [(1, 1)]) = 2"
    "length (data (picture 3 2 [(1, 1)])) = 24"
    by code_simp+
  then show ?thesis
    using tick_dims [of "showing (picture 3 2 [(1, 1)])" 3 2]
    by (simp add: showing_def)
qed

section \<open>Patterns and colours\<close>


lemma set_cells: "set (cells w h) = {(x, y). 0 \<le> x \<and> x < w \<and> 0 \<le> y \<and> y < h}"
  by (auto simp: cells_def)

lemma in_alive_cells:
  "(x, y) \<in> set (alive_cells w h g) \<longleftrightarrow> 0 \<le> x \<and> x < w \<and> 0 \<le> y \<and> y < h \<and> cell w g x y = 1"
  by (auto simp: alive_cells_def set_cells)

lemma two_colour_iff:
  "two_colour w h g \<longleftrightarrow>
     length (data g) = nat (4 * w * h) \<and>
     (\<forall>x y. 0 \<le> x \<and> x < w \<and> 0 \<le> y \<and> y < h \<longrightarrow>
        painted w g x y alive \<or> painted w g x y dead)"
  by (auto simp: two_colour_def list_all_iff set_cells)

lemma tick_two_colour: "two_colour w h (canvas (tick w h s))"
proof -
  have "painted w (canvas (tick w h s)) x y alive \<or> painted w (canvas (tick w h s)) x y dead"
    if "0 \<le> x \<and> x < w \<and> 0 \<le> y \<and> y < h" for x y
    using tick_result(4) [of x w y h s] that
    by (cases "shouldLive w (canvas s) x y") simp_all
  then show ?thesis
    unfolding two_colour_iff by (simp add: tick_result(1))
qed

lemma seed_eq:
  "seed w h rnd s =
     putImageData (fresh s)
       (for_loop 0 w (\<lambda>x. for_loop 0 h (\<lambda>y t.
           modify (fresh s) (\<lambda>img. write w img x y
             (if rnd (draws t) > 0.5 then alive else dead)) (t\<lparr>draws := Suc (draws t)\<rparr>)))
          (snd (createImageData w h s)))"
  by (simp add: seed_def createImageData_def random_def Let_def)

lemma seed_two_colour: "two_colour w h (canvas (seed w h rnd s))"
proof -
  define a where "a = fresh s"
  define s1 where "s1 = snd (createImageData w h s)"
  define body where "body = (\<lambda>x y t.
           modify a (\<lambda>img. write w img x y
             (if rnd (draws t) > 0.5 then alive else dead)) (t\<lparr>draws := Suc (draws t)\<rparr>))"
  define s2 where "s2 = for_loop 0 w (\<lambda>x. for_loop 0 h (body x)) s1"
  have sd: "seed w h rnd s = putImageData a s2"
    unfolding s2_def body_def s1_def a_def by (rule seed_eq)
  have size: "length (data (heap s1 a)) = nat (4 * w * h)"
    by (simp add: s1_def a_def createImageData_def)
  have "(\<forall>r. r \<noteq> a \<longrightarrow> heap s2 r = heap s1 r) \<and>
         length (data (heap s2 a)) = nat (4 * w * h) \<and>
         img_width (heap s2 a) = img_width (heap s1 a) \<and>
         img_height (heap s2 a) = img_height (heap s1 a) \<and>
         (\<forall>x y. 0 \<le> x \<and> x < w \<and> 0 \<le> y \<and> y < h \<longrightarrow>
            (\<exists>v. (v = alive \<or> v = dead) \<and> painted w (heap s2 a) x y v))"
    unfolding s2_def
  proof (rule fill_rule [OF size])
    fix x y and t :: world
    show "\<exists>v. (v = alive \<or> v = dead) \<and> clamp8 v = v \<and>
        heap (body x y t) = (heap t)(a := write w (heap t a) x y v)"
      using clamp8_alive_dead [of "rnd (draws t) > 0.5"]
      by (auto simp: body_def heap_modify)
  qed
  moreover have "data (canvas (seed w h rnd s)) = data (heap s2 a)"
    by (simp add: sd putImageData_def)
  ultimately show ?thesis
    unfolding two_colour_iff
    using painted_data_cong [of "canvas (seed w h rnd s)" "heap s2 a"]
    by auto
qed

lemma ticks_two_colour: "two_colour w h (canvas s) \<Longrightarrow> two_colour w h (canvas (ticks w h n s))"
  by (induction n arbitrary: s) (simp_all add: tick_two_colour)

lemma get_elem_nth: "i < length d \<Longrightarrow> get_elem d (int i) = Some (d ! i)"
  by (simp add: get_elem_def)

lemma painted_byte:
  assumes "painted w g x y v" "0 \<le> c" "c < 4"
  shows "get_elem (data g) (4 * (x + y * w) + c) = Some (if c = 0 then v else 255)"
proof -
  have "c = 0 \<or> c = 1 \<or> c = 2 \<or> c = 3" using assms(2,3) by arith
  with assms(1) show ?thesis
    unfolding painted_def by auto
qed

lemma byte_decomp:
  assumes "1 \<le> w" "length d = nat (4 * w * h)" "i < length d"
  obtains x y c where "0 \<le> x" "x < w" "0 \<le> y" "y < h" "0 \<le> c" "c < 4"
    "int i = 4 * (x + y * w) + c"
proof -
  define p where "p = int i div 4"
  define c where "c = int i mod 4"
  have i: "int i = 4 * p + c" "0 \<le> c" "c < 4" "0 \<le> p"
    by (simp_all add: p_def c_def)
  have "int i < 4 * w * h" using assms(2,3) by linarith
  then have "4 * p < 4 * (w * h)" using i by linarith
  then have p: "p < w * h" by simp
  have w: "0 < w" using assms(1) by simp
  note l = lin_decomp [OF w i(4) p]
  show thesis
  proof (rule that [of "p mod w" "p div w" c])
    show "int i = 4 * (p mod w + p div w * w) + c"
      using l(5) i(1) by simp
  qed (use l i in simp_all)
qed

lemma lin_cells:
  assumes "1 \<le> w" "length (data g) = nat (4 * w * h)"
  shows "cell w g x y = of_bool (x + y * w \<in> lin w ` set (alive_cells w h g))"
proof (cases "0 \<le> x + y * w \<and> x + y * w < w * h")
  case True
  define x0 where "x0 = (x + y * w) mod w"
  define y0 where "y0 = (x + y * w) div w"
  have g: "0 \<le> x0" "x0 < w" "0 \<le> y0" "y0 < h" "x + y * w = x0 + y0 * w"
    unfolding x0_def y0_def using lin_wrap [of w x y h] assms(1) True by simp_all
  have c: "cell w g x y = cell w g x0 y0"
    using g(5) by (rule cell_lin_eq)
  have "x + y * w \<in> lin w ` set (alive_cells w h g) \<longleftrightarrow> cell w g x0 y0 = 1"
  proof
    assume "x + y * w \<in> lin w ` set (alive_cells w h g)"
    then obtain a b where ab: "(a, b) \<in> set (alive_cells w h g)" "x + y * w = a + b * w"
      by (auto simp: lin_def)
    then have "0 \<le> a" "a < w" by (simp_all add: in_alive_cells)
    with g ab(2) have "a = x0 \<and> b = y0"
      by (intro lin_inj) simp_all
    with ab(1) show "cell w g x0 y0 = 1" by (simp add: in_alive_cells)
  next
    assume "cell w g x0 y0 = 1"
    with g have "(x0, y0) \<in> set (alive_cells w h g)" by (simp add: in_alive_cells)
    then have "lin w (x0, y0) \<in> lin w ` set (alive_cells w h g)" by (rule imageI)
    then show "x + y * w \<in> lin w ` set (alive_cells w h g)"
      by (simp add: lin_def g(5))
  qed
  with c cell_01 [of w g x0 y0] show ?thesis by auto
next
  case False
  then have "cell w g x y = 0"
    using assms(2) by (intro cell_out) auto
  moreover have "x + y * w \<notin> lin w ` set (alive_cells w h g)"
  proof
    assume "x + y * w \<in> lin w ` set (alive_cells w h g)"
    then obtain a b where ab: "(a, b) \<in> set (alive_cells w h g)" "x + y * w = a + b * w"
      by (auto simp: lin_def)
    then have "0 \<le> a" "a < w" "0 \<le> b" "b < h" by (simp_all add: in_alive_cells)
    from in_grid_lin [OF this] ab(2) False show False by simp
  qed
  ultimately show ?thesis by simp
qed

lemma shouldLive_life:
  assumes "\<And>x y. cell w g x y = of_bool (x + y * w \<in> L)"
  shows "shouldLive w g x y = life w L (x + y * w)"
  by (simp add: shouldLive_def neighborsLiving_def life_def assms Let_def algebra_simps)

lemma tick_cell:
  assumes "0 \<le> x" "x < w" "0 \<le> y" "y < h"
  shows "cell w (canvas (tick w h s)) x y = of_bool (shouldLive w (canvas s) x y)"
  using tick_result(4) [OF assms, of s]
  by (simp add: painted_cell alive_def dead_def)

lemma tick_life:
  assumes "1 \<le> w" "length (data (canvas s)) = nat (4 * w * h)"
    and "0 \<le> x" "x < w" "0 \<le> y" "y < h"
  shows "cell w (canvas (tick w h s)) x y =
         of_bool (life w (lin w ` set (alive_cells w h (canvas s))) (x + y * w))"
  using tick_cell [OF assms(3-6), of s] shouldLive_life [OF lin_cells [OF assms(1,2)]]
  by simp

lemma life_empty: "life w {} p = False"
  by (simp add: life_def)

lemma alive_cells_cong:
  assumes "\<And>x y. 0 \<le> x \<Longrightarrow> x < w \<Longrightarrow> 0 \<le> y \<Longrightarrow> y < h \<Longrightarrow> cell w a x y = cell w b x y"
  shows "alive_cells w h a = alive_cells w h b"
  unfolding alive_cells_def
  by (rule filter_cong) (auto simp: set_cells assms)

lemma two_colour_bytes:
  assumes "two_colour w h g" "1 \<le> w" "i < length (data g)"
  shows "(if i mod 4 = 0 then data g ! i = alive \<or> data g ! i = dead else data g ! i = 255)"
proof -
  from assms(1) have len: "length (data g) = nat (4 * w * h)"
    and col: "\<And>x y. 0 \<le> x \<and> x < w \<and> 0 \<le> y \<and> y < h \<Longrightarrow>
        painted w g x y alive \<or> painted w g x y dead"
    unfolding two_colour_iff by blast+
  from byte_decomp [OF assms(2) len assms(3)] obtain x y c
    where xy: "0 \<le> x" "x < w" "0 \<le> y" "y < h" and c: "0 \<le> c" "c < 4"
      and i: "int i = 4 * (x + y * w) + c"
    by blast
  from col xy obtain v where v: "v = alive \<or> v = dead" "painted w g x y v" by blast
  have "get_elem (data g) (int i) = Some (if c = 0 then v else 255)"
    unfolding i using v(2) c by (rule painted_byte)
  then have "data g ! i = (if c = 0 then v else 255)"
    using assms(3) by (simp add: get_elem_nth)
  moreover have "c = int i mod 4" using i c by presburger
  then have "c = 0 \<longleftrightarrow> i mod 4 = 0" by presburger
  ultimately show ?thesis using v(1) by auto
qed

lemma two_colour_same:
  assumes "1 \<le> w" "two_colour w h a" "two_colour w h b"
    and same: "\<And>x y. 0 \<le> x \<Longrightarrow> x < w \<Longrightarrow> 0 \<le> y \<Longrightarrow> y < h \<Longrightarrow> cell w a x y = cell w b x y"
  shows "data a = data b"
proof (rule nth_equalityI)
  from assms(2,3) have len: "length (data a) = nat (4 * w * h)" "length (data b) = nat (4 * w * h)"
    unfolding two_colour_iff by blast+
  then show "length (data a) = length (data b)" by simp
  fix i assume i: "i < length (data a)"
  from byte_decomp [OF assms(1) len(1) i] obtain x y c
    where xy: "0 \<le> x" "x < w" "0 \<le> y" "y < h" and c: "0 \<le> c" "c < 4"
      and ii: "int i = 4 * (x + y * w) + c"
    by blast
  from assms(2) xy obtain u where u: "u = alive \<or> u = dead" "painted w a x y u"
    unfolding two_colour_iff by blast
  from assms(3) xy obtain v where v: "v = alive \<or> v = dead" "painted w b x y v"
    unfolding two_colour_iff by blast
  have "cell w a x y = cell w b x y" using xy by (rule same)
  then have "u = v"
    using u v by (auto simp: painted_cell alive_def dead_def)
  have "get_elem (data a) (int i) = Some (if c = 0 then u else 255)"
    unfolding ii using u(2) c by (rule painted_byte)
  moreover have "get_elem (data b) (int i) = Some (if c = 0 then v else 255)"
    unfolding ii using v(2) c by (rule painted_byte)
  ultimately show "data a ! i = data b ! i"
    using i len \<open>u = v\<close> by (simp add: get_elem_nth)
qed

lemma life_blinker_h:
  assumes "5 \<le> w"
  shows "life w {c - 1, c, c + 1} p \<longleftrightarrow> p \<in> {c - w, c, c + w}"
proof -
  define d where "d = p - c"
  have p: "p = c + d" by (simp add: d_def)
  define D where "D = {- 2, - 1, 0, 1, 2, w - 2, w - 1, w, w + 1, w + 2,
                       - w - 2, - w - 1, - w, - w + 1, - w + 2}"
  show ?thesis
  proof (cases "d \<in> D")
    case True
    then show ?thesis
      unfolding D_def p life_def Let_def using assms
      by (elim insertE emptyE; simp)
  next
    case False
    then show ?thesis
      unfolding D_def p life_def Let_def using assms
      by (simp; presburger)
  qed
qed

lemma life_blinker_v:
  assumes "5 \<le> w"
  shows "life w {c - w, c, c + w} p \<longleftrightarrow> p \<in> {c - 1, c, c + 1}"
proof -
  define d where "d = p - c"
  have p: "p = c + d" by (simp add: d_def)
  define D where "D = {0, 1, - 1, w, - w, w + 1, - w - 1, w - 1, - w + 1,
                       2 * w, - 2 * w, 2 * w + 1, - 2 * w - 1, 2 * w - 1, - 2 * w + 1}"
  show ?thesis
  proof (cases "d \<in> D")
    case True
    then show ?thesis
      unfolding D_def p life_def Let_def using assms
      by (elim insertE emptyE; simp)
  next
    case False
    then show ?thesis
      unfolding D_def p life_def Let_def using assms
      by (simp; presburger)
  qed
qed

lemma life_block:
  assumes "4 \<le> w"
  shows "life w {b, b + 1, b + w, b + w + 1} p \<longleftrightarrow> p \<in> {b, b + 1, b + w, b + w + 1}"
proof -
  define d where "d = p - b"
  have p: "p = b + d" by (simp add: d_def)
  define D where "D = {- 1, 0, 1, 2, w - 1, w, w + 1, w + 2, - w - 1, - w, - w + 1, - w + 2,
                       2 * w - 1, 2 * w, 2 * w + 1, 2 * w + 2}"
  show ?thesis
  proof (cases "d \<in> D")
    case True
    then show ?thesis
      unfolding D_def p life_def Let_def using assms
      by (elim insertE emptyE; simp)
  next
    case False
    then show ?thesis
      unfolding D_def p life_def Let_def using assms
      by (simp; presburger)
  qed
qed

lemma tick_alive:
  assumes "1 \<le> w" "length (data (canvas s)) = nat (4 * w * h)"
    and S: "set (alive_cells w h (canvas s)) = S"
    and S': "\<forall>(x, y) \<in> S'. 0 \<le> x \<and> x < w \<and> 0 \<le> y \<and> y < h"
    and rule: "\<And>p. life w (lin w ` S) p \<longleftrightarrow> p \<in> lin w ` S'"
  shows "set (alive_cells w h (canvas (tick w h s))) = S'"
proof -
  have "(x, y) \<in> set (alive_cells w h (canvas (tick w h s))) \<longleftrightarrow> (x, y) \<in> S'" for x y
  proof (cases "0 \<le> x \<and> x < w \<and> 0 \<le> y \<and> y < h")
    case True
    then have "cell w (canvas (tick w h s)) x y = of_bool (x + y * w \<in> lin w ` S')"
      using tick_life [OF assms(1,2), of x y] by (simp add: S rule)
    moreover have "x + y * w \<in> lin w ` S' \<longleftrightarrow> (x, y) \<in> S'"
    proof
      assume "x + y * w \<in> lin w ` S'"
      then obtain a b where ab: "(a, b) \<in> S'" "x + y * w = a + b * w"
        by (auto simp: lin_def)
      with S' have "0 \<le> a" "a < w" by auto
      with True ab(2) have "x = a \<and> y = b" by (intro lin_inj) simp_all
      with ab(1) show "(x, y) \<in> S'" by simp
    next
      assume "(x, y) \<in> S'"
      then have "lin w (x, y) \<in> lin w ` S'" by (rule imageI)
      then show "x + y * w \<in> lin w ` S'" by (simp add: lin_def)
    qed
    ultimately show ?thesis using True by (simp add: in_alive_cells)
  next
    case False
    with S' show ?thesis by (auto simp: in_alive_cells)
  qed
  then show ?thesis by auto
qed

lemma same_alive_same_cells:
  assumes "set (alive_cells w h a) = set (alive_cells w h b)"
    and "0 \<le> x" "x < w" "0 \<le> y" "y < h"
  shows "cell w a x y = cell w b x y"
proof -
  have "cell w a x y = 1 \<longleftrightarrow> cell w b x y = 1"
    using assms in_alive_cells [of x y w h a] in_alive_cells [of x y w h b] by simp
  then show ?thesis
    using cell_01 [of w a x y] cell_01 [of w b x y] by auto
qed

lemma image_eqI:
  fixes a b :: ImageData
  assumes "img_width a = img_width b" "img_height a = img_height b" "data a = data b"
  shows "a = b"
  using assms by (cases a, cases b) simp

lemma cyan_or_white_bytes:
  assumes "length d = 4 * n"
    and "\<And>i. i < length d \<Longrightarrow>
           (if i mod 4 = 0 then d ! i = alive \<or> d ! i = dead else d ! i = 255)"
  shows "cyan_or_white d"
  using assms
proof (induction n arbitrary: d)
  case 0
  then show ?case by simp
next
  case (Suc n)
  from Suc.prems(1) have "length d = Suc (Suc (Suc (Suc (4 * n))))"
    by simp
  then obtain r g b a rest
    where d: "d = r # g # b # a # rest" and rest: "length rest = 4 * n"
    unfolding length_Suc_conv by blast
  have "cyan_or_white rest"
  proof (rule Suc.IH [OF rest])
    fix i assume "i < length rest"
    then have "Suc (Suc (Suc (Suc i))) < length d" by (simp add: d)
    note Suc.prems(2) [OF this]
    moreover have "d ! Suc (Suc (Suc (Suc i))) = rest ! i" by (simp add: d)
    moreover have "Suc (Suc (Suc (Suc i))) mod 4 = i mod 4" by presburger
    ultimately show "if i mod 4 = 0 then rest ! i = alive \<or> rest ! i = dead else rest ! i = 255"
      by (auto split: if_splits)
  qed
  moreover from Suc.prems(2) [of 0] Suc.prems(2) [of 1] Suc.prems(2) [of 2] Suc.prems(2) [of 3]
  have "(r = 0 \<or> r = 255) \<and> g = 255 \<and> b = 255 \<and> a = 255"
    by (simp add: d alive_def dead_def)
  ultimately show ?case by (simp add: d)
qed

lemma two_colour_pixels:
  assumes "two_colour w h g" "1 \<le> w" "1 \<le> h"
  shows "cyan_or_white (data g)"
proof (rule cyan_or_white_bytes)
  from assms(1) have "length (data g) = nat (4 * w * h)"
    unfolding two_colour_iff by blast
  also have "4 * w * h = 4 * (w * h)" by simp
  also have "nat (4 * (w * h)) = 4 * nat (w * h)"
    using assms(2,3) by (simp add: nat_mult_distrib)
  finally show "length (data g) = 4 * nat (w * h)" .
next
  fix i assume "i < length (data g)"
  with assms(1,2)
  show "if i mod 4 = 0 then data g ! i = alive \<or> data g ! i = dead else data g ! i = 255"
    by (rule two_colour_bytes)
qed

text \<open>
  Claim C7. For every grid in which every cell is dead, \<open>tick\<close> produces a grid of the same
  size in which every cell is dead (every pixel is white).
\<close>

theorem tick_empty:
  assumes "1 \<le> w" "1 \<le> h" "length (data (canvas s)) = nat (4 * w * h)"
    and "alive_cells w h (canvas s) = []"
  shows "alive_cells w h (canvas (tick w h s)) = [] \<and>
         list_all (\<lambda>(x, y). painted w (canvas (tick w h s)) x y dead) (cells w h) \<and>
         length (data (canvas (tick w h s))) = length (data (canvas s)) \<and>
         img_width (canvas (tick w h s)) = img_width (canvas s) \<and>
         img_height (canvas (tick w h s)) = img_height (canvas s)"
proof -
  have dead: "cell w (canvas s) x y = 0" for x y
    using lin_cells [OF assms(1,3), of x y] assms(4) by simp
  then have no: "\<not> shouldLive w (canvas s) x y" for x y
    by (simp add: shouldLive_def neighborsLiving_def)
  have p: "painted w (canvas (tick w h s)) x y dead"
    if "0 \<le> x" "x < w" "0 \<le> y" "y < h" for x y
    using tick_result(4) [OF that, of s] no by simp
  have "cell w (canvas (tick w h s)) x y = 0"
    if "0 \<le> x" "x < w" "0 \<le> y" "y < h" for x y
    using painted_cell [OF p [OF that]] by (simp add: alive_def dead_def)
  then have "alive_cells w h (canvas (tick w h s)) = []"
    by (auto simp: alive_cells_def filter_empty_conv set_cells)
  with p show ?thesis
    by (simp add: list_all_iff set_cells tick_result(1-3) assms(3))
qed

theorem tick_empty_witness:
  "alive_cells 3 2 (canvas (tick 3 2 (showing (white 3 2)))) = []"
proof -
  have "length (data (white 3 2)) = nat (4 * 3 * 2)" "alive_cells 3 2 (white 3 2) = []"
    by code_simp+
  then show ?thesis
    using tick_empty [of 3 2 "showing (white 3 2)"] by (simp add: showing_def)
qed

text \<open>
  Claim C5. For every grid of size at least 5 by 5 whose living cells are exactly the
  horizontal line \<open>(1, 2), (2, 2), (3, 2)\<close>, the living cells after one \<open>tick\<close> are exactly the
  vertical line \<open>(2, 1), (2, 2), (2, 3)\<close>, and after a second \<open>tick\<close> they are the horizontal
  line again: the grid has the cells it started with, and when the starting canvas is an
  image of cyan and white pixels (as every canvas that the program draws), the canvas is
  the one it started with, byte for byte.
\<close>

theorem blinker:
  assumes "5 \<le> w" "5 \<le> h" "length (data (canvas s)) = nat (4 * w * h)"
    and "set (alive_cells w h (canvas s)) = {(1, 2), (2, 2), (3, 2)}"
  shows "set (alive_cells w h (canvas (tick w h s))) = {(2, 1), (2, 2), (2, 3)} \<and>
         set (alive_cells w h (canvas (tick w h (tick w h s)))) = {(1, 2), (2, 2), (3, 2)} \<and>
         alive_cells w h (canvas (tick w h (tick w h s))) = alive_cells w h (canvas s) \<and>
         (two_colour w h (canvas s) \<longrightarrow> canvas (tick w h (tick w h s)) = canvas s)"
proof -
  define c where "c = 2 + 2 * w"
  have w: "1 \<le> w" using assms(1) by simp
  have H: "lin w ` {(1, 2), (2, 2), (3, 2)} = {c - 1, c, c + 1}"
    by (auto simp: lin_def c_def)
  have V: "lin w ` {(2, 1), (2, 2), (2, 3)} = {c - w, c, c + w}"
    by (auto simp: lin_def c_def)
  have one: "set (alive_cells w h (canvas (tick w h s))) = {(2, 1), (2, 2), (2, 3)}"
    using w assms(3,4)
  proof (rule tick_alive)
    show "\<forall>(x, y) \<in> {(2, 1), (2, 2), (2, 3)}. 0 \<le> x \<and> x < w \<and> 0 \<le> y \<and> y < h"
      using assms(1,2) by simp
    show "life w (lin w ` {(1, 2), (2, 2), (3, 2)}) p \<longleftrightarrow> p \<in> lin w ` {(2, 1), (2, 2), (2, 3)}"
      for p unfolding H V using assms(1) by (rule life_blinker_h)
  qed
  have two: "set (alive_cells w h (canvas (tick w h (tick w h s)))) = {(1, 2), (2, 2), (3, 2)}"
    using w tick_result(1) [of w h s] one
  proof (rule tick_alive)
    show "\<forall>(x, y) \<in> {(1, 2), (2, 2), (3, 2)}. 0 \<le> x \<and> x < w \<and> 0 \<le> y \<and> y < h"
      using assms(1,2) by simp
    show "life w (lin w ` {(2, 1), (2, 2), (2, 3)}) p \<longleftrightarrow> p \<in> lin w ` {(1, 2), (2, 2), (3, 2)}"
      for p unfolding H V using assms(1) by (rule life_blinker_v)
  qed
  have same: "cell w (canvas (tick w h (tick w h s))) x y = cell w (canvas s) x y"
    if "0 \<le> x" "x < w" "0 \<le> y" "y < h" for x y
    using _ that by (rule same_alive_same_cells) (simp add: two assms(4))
  then have list: "alive_cells w h (canvas (tick w h (tick w h s))) = alive_cells w h (canvas s)"
    by (rule alive_cells_cong)
  have "canvas (tick w h (tick w h s)) = canvas s" if "two_colour w h (canvas s)"
  proof (rule image_eqI)
    show "data (canvas (tick w h (tick w h s))) = data (canvas s)"
      using w tick_two_colour that same by (rule two_colour_same)
  qed (simp_all add: tick_result(2,3))
  with one two list show ?thesis by blast
qed

theorem blinker_witness:
  "set (alive_cells 5 5 (canvas (tick 5 5 (showing (picture 5 5 [(1, 2), (2, 2), (3, 2)]))))) =
     {(2, 1), (2, 2), (2, 3)} \<and>
   canvas (tick 5 5 (tick 5 5 (showing (picture 5 5 [(1, 2), (2, 2), (3, 2)])))) =
     picture 5 5 [(1, 2), (2, 2), (3, 2)]"
proof -
  have "length (data (picture 5 5 [(1, 2), (2, 2), (3, 2)])) = nat (4 * 5 * 5)"
    by code_simp
  moreover have "set (alive_cells 5 5 (picture 5 5 [(1, 2), (2, 2), (3, 2)])) =
      {(1, 2), (2, 2), (3, 2)}"
    by code_simp
  moreover have "two_colour 5 5 (picture 5 5 [(1, 2), (2, 2), (3, 2)])"
    by code_simp
  ultimately show ?thesis
    using blinker [of 5 5 "showing (picture 5 5 [(1, 2), (2, 2), (3, 2)])"]
    by (simp add: showing_def)
qed

text \<open>
  Claim C6. For every grid of size at least 4 by 4 whose living cells are exactly a 2 by
  2 square (columns \<open>i\<close>, \<open>i + 1\<close> and rows \<open>j\<close>, \<open>j + 1\<close>, anywhere in the grid), \<open>tick\<close>
  leaves the grid as it is: the cells are the same, and when the canvas is an image of
  cyan and white pixels, the canvas after the \<open>tick\<close> is the canvas before it.
\<close>

theorem block:
  assumes "4 \<le> w" "4 \<le> h" "length (data (canvas s)) = nat (4 * w * h)"
    and "0 \<le> i" "i + 1 < w" "0 \<le> j" "j + 1 < h"
    and "set (alive_cells w h (canvas s)) = {(i, j), (i + 1, j), (i, j + 1), (i + 1, j + 1)}"
  shows "alive_cells w h (canvas (tick w h s)) = alive_cells w h (canvas s) \<and>
         (two_colour w h (canvas s) \<longrightarrow> canvas (tick w h s) = canvas s)"
proof -
  define b where "b = i + j * w"
  have w: "1 \<le> w" using assms(1) by simp
  have B: "lin w ` {(i, j), (i + 1, j), (i, j + 1), (i + 1, j + 1)} = {b, b + 1, b + w, b + w + 1}"
    by (auto simp: lin_def b_def algebra_simps)
  have one: "set (alive_cells w h (canvas (tick w h s))) =
             {(i, j), (i + 1, j), (i, j + 1), (i + 1, j + 1)}"
    using w assms(3,8)
  proof (rule tick_alive)
    show "\<forall>(x, y) \<in> {(i, j), (i + 1, j), (i, j + 1), (i + 1, j + 1)}.
            0 \<le> x \<and> x < w \<and> 0 \<le> y \<and> y < h"
      using assms(4-7) by simp
    show "life w (lin w ` {(i, j), (i + 1, j), (i, j + 1), (i + 1, j + 1)}) p \<longleftrightarrow>
          p \<in> lin w ` {(i, j), (i + 1, j), (i, j + 1), (i + 1, j + 1)}"
      for p unfolding B using assms(1) by (rule life_block)
  qed
  have same: "cell w (canvas (tick w h s)) x y = cell w (canvas s) x y"
    if "0 \<le> x" "x < w" "0 \<le> y" "y < h" for x y
    using _ that by (rule same_alive_same_cells) (simp add: one assms(8))
  then have list: "alive_cells w h (canvas (tick w h s)) = alive_cells w h (canvas s)"
    by (rule alive_cells_cong)
  have "canvas (tick w h s) = canvas s" if "two_colour w h (canvas s)"
  proof (rule image_eqI)
    show "data (canvas (tick w h s)) = data (canvas s)"
      using w tick_two_colour that same by (rule two_colour_same)
  qed (simp_all add: tick_result(2,3))
  with list show ?thesis by blast
qed

theorem block_witness:
  "canvas (tick 4 4 (showing (picture 4 4 [(2, 1), (3, 1), (2, 2), (3, 2)]))) =
     picture 4 4 [(2, 1), (3, 1), (2, 2), (3, 2)]"
proof -
  have "length (data (picture 4 4 [(2, 1), (3, 1), (2, 2), (3, 2)])) = nat (4 * 4 * 4)"
    by code_simp
  moreover have "set (alive_cells 4 4 (picture 4 4 [(2, 1), (3, 1), (2, 2), (3, 2)])) =
      {(2, 1), (2 + 1, 1), (2, 1 + 1), (2 + 1, 1 + 1)}"
    by code_simp
  moreover have "two_colour 4 4 (picture 4 4 [(2, 1), (3, 1), (2, 2), (3, 2)])"
    by code_simp
  ultimately show ?thesis
    using block [of 4 4 "showing (picture 4 4 [(2, 1), (3, 1), (2, 2), (3, 2)])" 2 1]
    by (simp add: showing_def)
qed

text \<open>
  Claim C10. \<open>write\<close> with \<open>alive\<close> or \<open>dead\<close> makes the pixel of a cell of the grid
  \<open>(0, 255, 255, 255)\<close> or \<open>(255, 255, 255, 255)\<close>; hence, on a canvas of size at least 1 by
  1, after \<open>seed\<close>, after a \<open>tick\<close> from any canvas, and after every number of ticks that
  follow \<open>seed\<close>, the bytes of the canvas are pixels that are each opaque and cyan or
  white. This holds for the program as it is configured (\<open>game\<close>).
\<close>

theorem two_colours:
  "(1 \<le> w \<and> 1 \<le> h \<longrightarrow>
      cyan_or_white (data (canvas (seed w h rnd s))) \<and>
      cyan_or_white (data (canvas (tick w h s))) \<and>
      cyan_or_white (data (canvas (ticks w h n (seed w h rnd s)))) \<and>
      length (data (canvas (ticks w h n (seed w h rnd s)))) = nat (4 * w * h)) \<and>
   cyan_or_white (data (canvas (game rnd n))) \<and>
   (0 \<le> x \<and> x < w \<and> 0 \<le> y \<and> y < h \<and> length (data g) = nat (4 * w * h) \<longrightarrow>
      painted w (write w g x y alive) x y 0 \<and> painted w (write w g x y dead) x y 255)"
proof -
  have run: "two_colour w h (canvas (ticks w h n (seed w h rnd s)))" for w h s
    by (intro ticks_two_colour seed_two_colour)
  have a: "cyan_or_white (data (canvas (seed w h rnd s))) \<and>
      cyan_or_white (data (canvas (tick w h s))) \<and>
      cyan_or_white (data (canvas (ticks w h n (seed w h rnd s)))) \<and>
      length (data (canvas (ticks w h n (seed w h rnd s)))) = nat (4 * w * h)"
    if "1 \<le> w \<and> 1 \<le> h"
    using that two_colour_pixels [OF seed_two_colour, of w h rnd s]
      two_colour_pixels [OF tick_two_colour, of w h s]
      two_colour_pixels [OF run, of w h s] run [of w h s]
    by (simp add: two_colour_iff)
  have b: "cyan_or_white (data (canvas (game rnd n)))"
    unfolding game_def by (rule two_colour_pixels [OF run]) (simp_all add: width_def height_def)
  have c: "painted w (write w g x y alive) x y 0 \<and> painted w (write w g x y dead) x y 255"
    if "0 \<le> x \<and> x < w \<and> 0 \<le> y \<and> y < h \<and> length (data g) = nat (4 * w * h)"
    using painted_write_same [of x w y h g alive] painted_write_same [of x w y h g dead] that
    by (simp add: clamp8_def alive_def dead_def)
  from a b c show ?thesis by blast
qed

theorem two_colours_witness:
  "cyan_or_white (data (canvas (ticks 2 1 3 (seed 2 1 (\<lambda>k. 1 / 4) (initial 2 1))))) \<and>
   length (data (canvas (ticks 2 1 3 (seed 2 1 (\<lambda>k. 1 / 4) (initial 2 1))))) = 8 \<and>
   painted 2 (write 2 (blank 2 1) 1 0 alive) 1 0 0"
proof -
  have "length (data (blank 2 1)) = nat (4 * 2 * 1)"
    by (simp add: blank_def)
  then show ?thesis
    using two_colours [where w = 2 and h = 1 and rnd = "\<lambda>k. 1 / 4" and s = "initial 2 1"
        and n = 3 and x = 1 and y = 0 and g = "blank 2 1"]
    by simp
qed

end
